theory Spec2Isabelle
  imports Main "HOL-Library.AList"
begin

section \<open>Boolean functions over the variables of the game\<close>

text \<open>
  The tool keeps every predicate as a BDD of one manager.  A BDD is canonical: two BDD
  objects are equal (\<open>==\<close>, pointer equality) exactly when they denote the same Boolean
  function, so a BDD is modelled by the set of valuations it accepts.  Every variable of
  \<open>marduk.vars\<close> has a present-state instance \<open>ps\<close> and a next-state instance \<open>ns\<close>.
  A valuation gives, for both instances, the joint value of the INPUT variables (\<open>'i\<close>),
  of the OUTPUT variables (\<open>'o\<close>) and of the STATE variables (\<open>'m\<close>, the \<open>jx\<close> memory bits,
  which \<open>_moduloInc\<close> adds to \<open>marduk.vars\<close> before the fixpoints are computed).

  \<open>BDD.ONE\<close> is the set of all valuations, \<open>BDD.ZERO\<close> the empty set, the operators \<open>*\<close>, \<open>+\<close>, \<open>~\<close> of
  \<open>bddwrap.py\<close> are intersection, union and complement, and \<open>a <= b\<close> (\<open>bdd_leq\<close>) is
  \<open>a \<subseteq> b\<close>.
\<close>

type_synonym ('i, 'o, 'm) state = "'i \<times> 'o \<times> 'm"
type_synonym ('i, 'o, 'm) valuation = "('i, 'o, 'm) state \<times> ('i, 'o, 'm) state"
type_synonym ('i, 'o, 'm) bdd = "('i, 'o, 'm) valuation set"

datatype error = KeyError | TypeError | IndexError | AttributeError | NameError | MardukException

definition ONE :: "('i, 'o, 'm) bdd" where
  "ONE = UNIV"

definition ZERO :: "('i, 'o, 'm) bdd" where
  "ZERO = {}"

fun set_ns_in :: "'i \<Rightarrow> ('i, 'o, 'm) valuation \<Rightarrow> ('i, 'o, 'm) valuation" where
  "set_ns_in a (p, (i', o', m')) = (p, (a, o', m'))"

fun set_ns_out :: "'o \<Rightarrow> ('i, 'o, 'm) valuation \<Rightarrow> ('i, 'o, 'm) valuation" where
  "set_ns_out b (p, (i', o', m')) = (p, (i', b, m'))"

fun set_ps_out :: "'o \<Rightarrow> ('i, 'o, 'm) valuation \<Rightarrow> ('i, 'o, 'm) valuation" where
  "set_ps_out b ((i, o1, m), n) = ((i, b, m), n)"

text \<open>\<open>f.swapVariables(present, next)\<close> with the \<open>ps\<close> and \<open>ns\<close> instances of every
  variable, as \<open>coax\<close> builds the two lists.\<close>

definition swapVariables_all :: "('i, 'o, 'm) bdd \<Rightarrow> ('i, 'o, 'm) bdd" where
  "swapVariables_all f = {v. (snd v, fst v) \<in> f}"

text \<open>\<open>exists\<close> and \<open>forall\<close> abstract the variables of a cube.  The cubes that occur are
  the product of the \<open>ns\<close> instances of all OUTPUT variables, of the \<open>ns\<close> instances of
  all INPUT variables (\<open>coax\<close>) and of the \<open>ps\<close> instances of all OUTPUT variables
  (\<open>isRealizable\<close>).\<close>

definition exists_ns_out :: "('i, 'o, 'm) bdd \<Rightarrow> ('i, 'o, 'm) bdd" where
  "exists_ns_out f = {v. \<exists>b. set_ns_out b v \<in> f}"

definition forall_ns_in :: "('i, 'o, 'm) bdd \<Rightarrow> ('i, 'o, 'm) bdd" where
  "forall_ns_in f = {v. \<forall>a. set_ns_in a v \<in> f}"

definition exists_ps_out :: "('i, 'o, 'm) bdd \<Rightarrow> ('i, 'o, 'm) bdd" where
  "exists_ps_out f = {v. \<exists>b. set_ps_out b v \<in> f}"

text \<open>\<open>f.andExists(g, cube)\<close> is \<open>bdd_and_abstract\<close>: the conjunction with the cube's
  variables abstracted.\<close>

definition andExists_ns_out :: "('i, 'o, 'm) bdd \<Rightarrow> ('i, 'o, 'm) bdd \<Rightarrow> ('i, 'o, 'm) bdd" where
  "andExists_ns_out f g = exists_ns_out (f \<inter> g)"


text \<open>\<open>f.swapVariables(present_vars, next_vars)\<close> with the instances of the variables
  that are not of type STATE, as the strategy builds the two lists, and
  \<open>f.swapVariables(jx_present_vars, jx_next_vars)\<close> with the instances of all memory
  variables.  Exchanging two lists of variables is symmetric in the lists.\<close>

fun swap_io :: "('i, 'o, 'm) valuation \<Rightarrow> ('i, 'o, 'm) valuation" where
  "swap_io ((i, o1, m), (i', o', m')) = ((i', o', m), (i, o1, m'))"

fun swap_jx :: "('i, 'o, 'm) valuation \<Rightarrow> ('i, 'o, 'm) valuation" where
  "swap_jx ((i, o1, m), (i', o', m')) = ((i, o1, m'), (i', o', m))"

definition swapVariables_io :: "('i, 'o, 'm) bdd \<Rightarrow> ('i, 'o, 'm) bdd" where
  "swapVariables_io f = {v. swap_io v \<in> f}"

definition swapVariables_jx :: "('i, 'o, 'm) bdd \<Rightarrow> ('i, 'o, 'm) bdd" where
  "swapVariables_jx f = {v. swap_jx v \<in> f}"

text \<open>\<open>f.andExists(g, present_vars_cube)\<close> with the cube of the \<open>ps\<close> instances of all
  variables (\<open>reachableStates\<close>).\<close>

definition andExists_ps_all :: "('i, 'o, 'm) bdd \<Rightarrow> ('i, 'o, 'm) bdd \<Rightarrow> ('i, 'o, 'm) bdd" where
  "andExists_ps_all f g = {v. \<exists>p. (p, snd v) \<in> f \<inter> g}"

text \<open>The operator \<open>/\<close> is \<open>bdd_cofactor\<close>.  The strategy applies it only with a cube over
  the \<open>ps\<close> instances of all memory variables as its second argument.  The cofactor by
  a cube gives the cube's variables the cube's values; that is the conjunction with the
  cube, with the cube's variables abstracted.\<close>

fun set_ps_jx :: "'m \<Rightarrow> ('i, 'o, 'm) valuation \<Rightarrow> ('i, 'o, 'm) valuation" where
  "set_ps_jx c ((i, o1, m), n) = ((i, o1, c), n)"

definition bdd_cofactor :: "('i, 'o, 'm) bdd \<Rightarrow> ('i, 'o, 'm) bdd \<Rightarrow> ('i, 'o, 'm) bdd" where
  "bdd_cofactor f cube = {v. \<exists>c. set_ps_jx c v \<in> f \<inter> cube}"

text \<open>Exceptions: a computation returns an error or a value, and the first error ends
  it.\<close>

definition ebind :: "error + 'a \<Rightarrow> ('a \<Rightarrow> error + 'b) \<Rightarrow> error + 'b" where
  "ebind m f = (case m of Inl e \<Rightarrow> Inl e | Inr a \<Rightarrow> f a)"

primrec efold :: "('a \<Rightarrow> 's \<Rightarrow> error + 's) \<Rightarrow> 'a list \<Rightarrow> 's \<Rightarrow> error + 's" where
  "efold f [] s = Inr s"
| "efold f (a # as) s = ebind (f a s) (efold f as)"

text \<open>\<open>d[k]\<close> for a dictionary and \<open>xs[i]\<close> for a list.\<close>

definition dict_get :: "nat \<Rightarrow> (nat \<times> 'a) list \<Rightarrow> error + 'a" where
  "dict_get k d = (case map_of d k of None \<Rightarrow> Inl KeyError | Some v \<Rightarrow> Inr v)"

definition list_get :: "'a list \<Rightarrow> nat \<Rightarrow> error + 'a" where
  "list_get xs i = (if i < length xs then Inr (xs ! i) else Inl IndexError)"
section \<open>The specification\<close>

text \<open>What \<open>Specification._set_up_bdds\<close> stores and the getters hand out.  \<open>init12\<close> and
  \<open>trans12\<close> are computed there as the products of the two players' parts.\<close>

record ('i, 'o, 'm) Specification =
  spec_init1 :: "('i, 'o, 'm) bdd"
  spec_init2 :: "('i, 'o, 'm) bdd"
  spec_trans1 :: "('i, 'o, 'm) bdd"
  spec_trans2 :: "('i, 'o, 'm) bdd"
  spec_assumptions :: "('i, 'o, 'm) bdd list"
  spec_guarantees :: "('i, 'o, 'm) bdd list"

definition get_init12 :: "('i, 'o, 'm) Specification \<Rightarrow> ('i, 'o, 'm) bdd" where
  "get_init12 S = spec_init1 S \<inter> spec_init2 S"

definition get_trans12 :: "('i, 'o, 'm) Specification \<Rightarrow> ('i, 'o, 'm) bdd" where
  "get_trans12 S = spec_trans1 S \<inter> spec_trans2 S"

section \<open>The winning region\<close>

text \<open>\<open>WinningRegion.coax\<close>, reading \<open>transition1\<close> and \<open>transition2\<close>, which
  \<open>calcWinningRegion\<close> has copied from the specification.\<close>

definition coax :: "('i, 'o, 'm) Specification \<Rightarrow> ('i, 'o, 'm) bdd \<Rightarrow> ('i, 'o, 'm) bdd" where
  "coax S states =
     (let swapped_states = swapVariables_all states;
          result = andExists_ns_out (spec_trans2 S) swapped_states;
          result = result \<union> (- spec_trans1 S)
      in forall_ns_in result)"

text \<open>The innermost loop \<open>while (x != old_x)\<close> of \<open>calcWinningRegion\<close>.  \<open>None\<close> is a
  loop that never ends.\<close>

partial_function (option) x_loop ::
  "('i, 'o, 'm) Specification \<Rightarrow> ('i, 'o, 'm) bdd \<Rightarrow> ('i, 'o, 'm) bdd \<Rightarrow>
   ('i, 'o, 'm) bdd \<Rightarrow> ('i, 'o, 'm) bdd \<Rightarrow> ('i, 'o, 'm) bdd option" where
  "x_loop S start a old_x x =
     (if x \<noteq> old_x then x_loop S start a x (start \<union> ((- a) \<inter> coax S x))
      else Some x)"

text \<open>\<open>for i in range(0,m)\<close>: the list argument holds the indices still to be visited.
  The row \<open>xArray[j][r]\<close> is a dictionary from \<open>i\<close> to the converged \<open>x\<close>; it is
  assembled here and stored under \<open>r\<close> by the caller, which is what the source's
  stores into the freshly created \<open>xArray[j][r] = {}\<close> amount to.\<close>

fun i_loop ::
  "('i, 'o, 'm) Specification \<Rightarrow> ('i, 'o, 'm) bdd \<Rightarrow> ('i, 'o, 'm) bdd \<Rightarrow> nat list \<Rightarrow>
   ('i, 'o, 'm) bdd \<Rightarrow> (nat \<times> ('i, 'o, 'm) bdd) list \<Rightarrow>
   (('i, 'o, 'm) bdd \<times> (nat \<times> ('i, 'o, 'm) bdd) list) option" where
  "i_loop S z start [] y xr = Some (y, xr)"
| "i_loop S z start (i # is) y xr =
     (case x_loop S start (spec_assumptions S ! i) ZERO z of
        None \<Rightarrow> None
      | Some x \<Rightarrow> i_loop S z start is (y \<union> x) (AList.update i x xr))"

text \<open>\<open>while(y != old_y)\<close>, with the dictionaries \<open>xArray[j]\<close> and \<open>yArray[j]\<close> of the
  guarantee in work.\<close>

partial_function (option) y_loop ::
  "('i, 'o, 'm) Specification \<Rightarrow> ('i, 'o, 'm) bdd \<Rightarrow> nat \<Rightarrow> nat \<Rightarrow>
   ('i, 'o, 'm) bdd \<Rightarrow> ('i, 'o, 'm) bdd \<Rightarrow>
   (nat \<times> (nat \<times> ('i, 'o, 'm) bdd) list) list \<Rightarrow> (nat \<times> ('i, 'o, 'm) bdd) list \<Rightarrow>
   (nat \<times> ('i, 'o, 'm) bdd \<times> (nat \<times> (nat \<times> ('i, 'o, 'm) bdd) list) list \<times>
    (nat \<times> ('i, 'o, 'm) bdd) list) option" where
  "y_loop S z j r old_y y xj yj =
     (if y \<noteq> old_y then
        (let start = (spec_guarantees S ! j \<inter> coax S z) \<union> coax S y in
         case i_loop S z start [0..<length (spec_assumptions S)] ZERO [] of
           None \<Rightarrow> None
         | Some (y', xr) \<Rightarrow>
             y_loop S z j (r + 1) y y' (AList.update r xr xj) (AList.update r y' yj))
      else Some (r, y, xj, yj))"

text \<open>\<open>d.pop(k)\<close> of a dictionary: the entry is removed; a missing key raises.\<close>

definition dict_pop :: "nat \<Rightarrow> (nat \<times> 'a) list \<Rightarrow> error + (nat \<times> 'a) list" where
  "dict_pop k d = (case map_of d k of None \<Rightarrow> Inl KeyError | Some v \<Rightarrow> Inr (AList.delete k d))"

type_synonym ('i, 'o, 'm) xarray = "(nat \<times> (nat \<times> (nat \<times> ('i, 'o, 'm) bdd) list) list) list"
type_synonym ('i, 'o, 'm) yarray = "(nat \<times> (nat \<times> ('i, 'o, 'm) bdd) list) list"

text \<open>\<open>for j in range(0,n)\<close>: one pass over the guarantees, \<open>z\<close> overwritten after each.\<close>

fun j_loop ::
  "('i, 'o, 'm) Specification \<Rightarrow> nat list \<Rightarrow> ('i, 'o, 'm) bdd \<Rightarrow>
   ('i, 'o, 'm) xarray \<Rightarrow> ('i, 'o, 'm) yarray \<Rightarrow>
   (error + ('i, 'o, 'm) bdd \<times> ('i, 'o, 'm) xarray \<times> ('i, 'o, 'm) yarray) option" where
  "j_loop S [] z xA yA = Some (Inr (z, xA, yA))"
| "j_loop S (j # js) z xA yA =
     (case y_loop S z j 0 ONE ZERO [] [] of
        None \<Rightarrow> None
      | Some (r, y, xj, yj) \<Rightarrow>
          (case dict_pop (r - 1) yj of
             Inl e \<Rightarrow> Some (Inl e)
           | Inr yj' \<Rightarrow>
               (case dict_pop (r - 1) xj of
                  Inl e \<Rightarrow> Some (Inl e)
                | Inr xj' \<Rightarrow>
                    j_loop S js y (AList.update j xj' xA) (AList.update j yj' yA))))"

text \<open>The outermost loop \<open>while(z != old_z)\<close>.\<close>

partial_function (option) z_loop ::
  "('i, 'o, 'm) Specification \<Rightarrow> ('i, 'o, 'm) bdd \<Rightarrow> ('i, 'o, 'm) bdd \<Rightarrow>
   ('i, 'o, 'm) xarray \<Rightarrow> ('i, 'o, 'm) yarray \<Rightarrow>
   (error + ('i, 'o, 'm) bdd \<times> ('i, 'o, 'm) xarray \<times> ('i, 'o, 'm) yarray) option" where
  "z_loop S old_z z xA yA =
     (if z \<noteq> old_z then
        (case j_loop S [0..<length (spec_guarantees S)] z xA yA of
           None \<Rightarrow> None
         | Some (Inl e) \<Rightarrow> Some (Inl e)
         | Some (Inr (z', xA', yA')) \<Rightarrow> z_loop S z z' xA' yA')
      else Some (Inr (z, xA, yA)))"


declare x_loop.simps [code] y_loop.simps [code] z_loop.simps [code]

section \<open>The memory variables\<close>

text \<open>\<open>generate_JX_vars\<close> asks the BDD manager for new variables \<open>jx_0\<close>, \<open>jx_1\<close>, ...
  The value of the \<open>k\<close>-th of them in a memory valuation is \<open>jx_bit k\<close>, a parameter: the
  BDD of the variable's \<open>ps\<close> (\<open>ns\<close>) instance is the set of valuations whose present
  (next) memory part has that bit set.\<close>

definition jx_ps_var :: "(nat \<Rightarrow> 'm \<Rightarrow> bool) \<Rightarrow> nat \<Rightarrow> ('i, 'o, 'm) bdd" where
  "jx_ps_var jx_bit k = {v. jx_bit k (snd (snd (fst v)))}"

definition jx_ns_var :: "(nat \<Rightarrow> 'm \<Rightarrow> bool) \<Rightarrow> nat \<Rightarrow> ('i, 'o, 'm) bdd" where
  "jx_ns_var jx_bit k = {v. jx_bit k (snd (snd (snd v)))}"

definition generate_JX_vars ::
  "(nat \<Rightarrow> 'm \<Rightarrow> bool) \<Rightarrow> nat \<Rightarrow> ('i, 'o, 'm) bdd list \<times> ('i, 'o, 'm) bdd list" where
  "generate_JX_vars jx_bit n = (map (jx_ps_var jx_bit) [0..<n], map (jx_ns_var jx_bit) [0..<n])"

text \<open>The operator \<open>^\<close> of \<open>bddwrap.py\<close> (\<open>bdd_xor\<close>).\<close>

definition bdd_xor :: "'a set \<Rightarrow> 'a set \<Rightarrow> 'a set" where
  "bdd_xor f g = (f - g) \<union> (g - f)"

text \<open>\<open>int(math.ceil(math.log(n,2)))\<close>, replaced by 1 when it is 0.  The source computes
  the logarithm in floating point; the model takes the exact value.\<close>

fun ceil_log2 :: "nat \<Rightarrow> nat \<Rightarrow> nat" where
  "ceil_log2 0 n = 0"
| "ceil_log2 (Suc fuel) n = (if n \<le> 1 then 0 else Suc (ceil_log2 fuel ((n + 1) div 2)))"

definition num_of_bits :: "nat \<Rightarrow> nat" where
  "num_of_bits n = (let b = ceil_log2 n n in if b = 0 then 1 else b)"

text \<open>\<open>_moduloInc(n)\<close> for \<open>n > 0\<close>: the values it stores in \<open>transitionjx\<close>, \<open>initjx\<close>,
  \<open>jx_ps_vars\<close> and \<open>jx_ns_vars\<close>, for the one-hot and for the binary encoding.\<close>

definition one_hot_state :: "('i, 'o, 'm) bdd list \<Rightarrow> nat \<Rightarrow> nat \<Rightarrow> ('i, 'o, 'm) bdd" where
  "one_hot_state vars n i =
     fold (\<lambda>j st. if i = j then st \<inter> vars ! j else st \<inter> - (vars ! j)) [0..<n] ONE"

definition moduloInc_one_hot ::
  "(nat \<Rightarrow> 'm \<Rightarrow> bool) \<Rightarrow> nat \<Rightarrow>
   ('i, 'o, 'm) bdd \<times> ('i, 'o, 'm) bdd \<times> ('i, 'o, 'm) bdd list \<times> ('i, 'o, 'm) bdd list" where
  "moduloInc_one_hot jx_bit n =
     (let (present_vars, next_vars) = generate_JX_vars jx_bit n;
          present_states = map (one_hot_state present_vars n) [0..<n];
          next_states = map (one_hot_state next_vars n) [0..<n];
          trans_relation =
            fold (\<lambda>i t. t \<union> (present_states ! i \<inter> next_states ! (i + 1))) [0..<n - 1] ZERO;
          trans_relation = trans_relation \<union> (present_states ! (n - 1) \<inter> next_states ! 0);
          start_state = present_states ! 0
      in (trans_relation, start_state, present_vars, next_vars))"

definition moduloInc_binary ::
  "(nat \<Rightarrow> 'm \<Rightarrow> bool) \<Rightarrow> nat \<Rightarrow>
   ('i, 'o, 'm) bdd \<times> ('i, 'o, 'm) bdd \<times> ('i, 'o, 'm) bdd list \<times> ('i, 'o, 'm) bdd list" where
  "moduloInc_binary jx_bit n =
     (let nb = num_of_bits n;
          (present_vars, next_vars) = generate_JX_vars jx_bit nb;
          (trans_relation, carry) =
            fold (\<lambda>i (t, carry).
                    (t \<inter> ((- (next_vars ! i) \<union> bdd_xor carry (present_vars ! i)) \<inter>
                          (- bdd_xor carry (present_vars ! i) \<union> next_vars ! i)),
                     carry \<inter> present_vars ! i))
                 [0..<nb] (ONE, ONE);
          (reset_condition, reset_state, start_state, bit_selector) =
            fold (\<lambda>i (rc, rs, ss, bs).
                    ((if bs mod 2 = 1 then rc \<inter> present_vars ! i else rc \<inter> - (present_vars ! i)),
                     rs \<inter> - (next_vars ! i), ss \<inter> - (present_vars ! i), bs div 2))
                 [0..<nb] (ONE, ONE, ONE, n - 1);
          case_increase = reset_condition \<union> trans_relation;
          case_reset = - reset_condition \<union> reset_state;
          trans_relation = case_increase \<inter> case_reset
      in (trans_relation, start_state, present_vars, next_vars))"

section \<open>The WinningRegion object\<close>

text \<open>The fields of a \<open>WinningRegion\<close> object once \<open>calcWinningRegion\<close> has run.  Those
  that can still be \<open>None\<close> then are options: \<open>_moduloInc(0)\<close> returns before it stores
  anything, and \<open>init\<close> is first assigned in \<open>isRealizable\<close>.\<close>

record ('i, 'o, 'm) WinningRegion =
  winningRegion :: "('i, 'o, 'm) bdd"
  xArray :: "('i, 'o, 'm) xarray"
  yArray :: "('i, 'o, 'm) yarray"
  guarantees :: "('i, 'o, 'm) bdd list"
  assumptions :: "('i, 'o, 'm) bdd list"
  transition1 :: "('i, 'o, 'm) bdd"
  transition2 :: "('i, 'o, 'm) bdd"
  transition12 :: "('i, 'o, 'm) bdd"
  transitionjx :: "('i, 'o, 'm) bdd option"
  init1 :: "('i, 'o, 'm) bdd"
  init2 :: "('i, 'o, 'm) bdd"
  init12 :: "('i, 'o, 'm) bdd"
  init :: "('i, 'o, 'm) bdd option"
  initjx :: "('i, 'o, 'm) bdd option"
  jx_ps_vars :: "('i, 'o, 'm) bdd list option"
  jx_ns_vars :: "('i, 'o, 'm) bdd list option"

text \<open>What \<open>calcWinningRegion\<close> needs of the \<open>Marduk\<close> object: the option \<open>one_hot\<close> and
  the memory variables the manager will hand out.\<close>

record 'm Marduk =
  one_hot :: bool
  jx_bit :: "nat \<Rightarrow> 'm \<Rightarrow> bool"

definition calcWinningRegion ::
  "'m Marduk \<Rightarrow> ('i, 'o, 'm) Specification \<Rightarrow> (error + ('i, 'o, 'm) WinningRegion) option" where
  "calcWinningRegion marduk S =
     (let n = length (spec_guarantees S);
          jx = (if n = 0 then None
                else Some (if one_hot marduk then moduloInc_one_hot (jx_bit marduk) n
                           else moduloInc_binary (jx_bit marduk) n))
      in case z_loop S ZERO ONE [] [] of
           None \<Rightarrow> None
         | Some (Inl e) \<Rightarrow> Some (Inl e)
         | Some (Inr (z, xA, yA)) \<Rightarrow>
             Some (Inr \<lparr> winningRegion = z, xArray = xA, yArray = yA,
                         guarantees = spec_guarantees S, assumptions = spec_assumptions S,
                         transition1 = spec_trans1 S, transition2 = spec_trans2 S,
                         transition12 = get_trans12 S,
                         transitionjx = map_option fst jx,
                         init1 = spec_init1 S, init2 = spec_init2 S, init12 = get_init12 S,
                         init = None,
                         initjx = map_option (fst \<circ> snd) jx,
                         jx_ps_vars = map_option (fst \<circ> snd \<circ> snd) jx,
                         jx_ns_vars = map_option (snd \<circ> snd \<circ> snd) jx \<rparr>))"

text \<open>\<open>isRealizable\<close>.  The in-place products \<open>*=\<close> change the object's fields; the
  function returns the answer together with the object as it is afterwards.  With
  \<open>initjx\<close> still \<open>None\<close> the product \<open>init12 * initjx\<close> raises.\<close>

definition isRealizable ::
  "('i, 'o, 'm) WinningRegion \<Rightarrow> error + bool \<times> ('i, 'o, 'm) WinningRegion" where
  "isRealizable w =
     (let win_and_sys_initial = winningRegion w \<inter> init2 w;
          can_find_initial_output = exists_ps_out win_and_sys_initial;
          realizable = ((- init1 w) \<union> can_find_initial_output = ONE)
      in if realizable \<and> \<not> init12 w \<subseteq> winningRegion w then
           (let w = w\<lparr>init1 := init1 w \<inter> winningRegion w\<rparr>;
                w = w\<lparr>init2 := init2 w \<inter> winningRegion w\<rparr>;
                w = w\<lparr>init12 := init12 w \<inter> winningRegion w\<rparr>
            in case initjx w of
                 None \<Rightarrow> Inl TypeError
               | Some ijx \<Rightarrow> Inr (realizable, w\<lparr>init := Some (init12 w \<inter> ijx)\<rparr>))
         else Inr (realizable, w))"

section \<open>The strategy\<close>

text \<open>\<open>WinningRegion.reachableStates\<close>: the loop \<open>while not(old_reach == reach)\<close> and the
  method.  \<open>present_vars\<close> and \<open>next_vars\<close> hold the instances of every variable.\<close>

partial_function (option) reach_loop ::
  "('i, 'o, 'm) bdd \<Rightarrow> ('i, 'o, 'm) bdd \<Rightarrow> ('i, 'o, 'm) bdd \<Rightarrow> ('i, 'o, 'm) bdd \<Rightarrow>
   ('i, 'o, 'm) bdd option" where
  "reach_loop trans0 invar old_reach reach =
     (if \<not> (old_reach = reach) then
        (let old_reach = reach;
             reach = reach \<inter> invar;
             tmp = andExists_ps_all reach trans0;
             reach = reach \<union> swapVariables_all tmp
         in reach_loop trans0 invar old_reach reach)
      else Some reach)"

declare reach_loop.simps [code]

definition reachableStates ::
  "('i, 'o, 'm) bdd \<Rightarrow> ('i, 'o, 'm) bdd \<Rightarrow> ('i, 'o, 'm) bdd \<Rightarrow> ('i, 'o, 'm) bdd option" where
  "reachableStates init0 trans0 invar = reach_loop trans0 invar ZERO (init0 \<inter> invar)"

text \<open>The operator \<open>//\<close> is \<open>bdd_minimize\<close> (restrict): it returns some BDD that agrees
  with its first argument wherever the second, the care set, holds.  Which one depends
  on the variable order of the manager, so the operator is a parameter \<open>rst\<close> of the
  strategy; \<open>restrict_ok rst\<close> is what is known of it.\<close>

definition restrict_ok ::
  "(('i, 'o, 'm) bdd \<Rightarrow> ('i, 'o, 'm) bdd \<Rightarrow> ('i, 'o, 'm) bdd) \<Rightarrow> bool" where
  "restrict_ok rst \<longleftrightarrow> (\<forall>f c. rst f c \<inter> c = f \<inter> c)"

text \<open>\<open>_calc_rho3\<close>.  The three nested loops are folds over the index ranges; the state
  of the two inner ones is \<open>(rho3_tmp, low)\<close>, that of the outer one \<open>(rho3, jp1)\<close>.  The
  property getters of \<open>WinningRegion\<close> raise when a field is \<open>None\<close> or an empty list
  (\<open>assumptions\<close> with a misspelt exception name, hence \<open>NameError\<close>).\<close>

definition rho3_i_body ::
  "(('i, 'o, 'm) bdd \<Rightarrow> ('i, 'o, 'm) bdd \<Rightarrow> ('i, 'o, 'm) bdd) \<Rightarrow> ('i, 'o, 'm) bdd \<Rightarrow>
   ('i, 'o, 'm) bdd list \<Rightarrow> (nat \<times> ('i, 'o, 'm) bdd) list \<Rightarrow> nat \<Rightarrow>
   ('i, 'o, 'm) bdd \<times> ('i, 'o, 'm) bdd \<Rightarrow> error + ('i, 'o, 'm) bdd \<times> ('i, 'o, 'm) bdd" where
  "rho3_i_body rst reachable_states assumptions0 row i st =
     (case st of (rho3_tmp, low) \<Rightarrow>
        ebind (dict_get i row) (\<lambda>x.
          let next_x = swapVariables_io x in
          ebind (list_get assumptions0 i) (\<lambda>a.
            Inr (rho3_tmp \<union> (rst x reachable_states \<inter> rst (- low) reachable_states
                               \<inter> (- a) \<inter> next_x),
                 low \<union> x))))"

definition rho3_r_body ::
  "(('i, 'o, 'm) bdd \<Rightarrow> ('i, 'o, 'm) bdd \<Rightarrow> ('i, 'o, 'm) bdd) \<Rightarrow> ('i, 'o, 'm) bdd \<Rightarrow>
   ('i, 'o, 'm) bdd list \<Rightarrow> (nat \<times> (nat \<times> ('i, 'o, 'm) bdd) list) list \<Rightarrow> nat \<Rightarrow>
   ('i, 'o, 'm) bdd \<times> ('i, 'o, 'm) bdd \<Rightarrow> error + ('i, 'o, 'm) bdd \<times> ('i, 'o, 'm) bdd" where
  "rho3_r_body rst reachable_states assumptions0 xj r st =
     ebind (dict_get r xj) (\<lambda>row.
       efold (rho3_i_body rst reachable_states assumptions0 row) [0..<length row] st)"

definition rho3_j_body ::
  "(('i, 'o, 'm) bdd \<Rightarrow> ('i, 'o, 'm) bdd \<Rightarrow> ('i, 'o, 'm) bdd) \<Rightarrow> ('i, 'o, 'm) bdd \<Rightarrow>
   ('i, 'o, 'm) bdd \<Rightarrow> ('i, 'o, 'm) bdd list \<Rightarrow> ('i, 'o, 'm) xarray \<Rightarrow> nat \<Rightarrow>
   ('i, 'o, 'm) bdd \<times> ('i, 'o, 'm) bdd \<Rightarrow> error + ('i, 'o, 'm) bdd \<times> ('i, 'o, 'm) bdd" where
  "rho3_j_body rst reachable_states mod_trans assumptions0 xA j st =
     (case st of (rho3, jp1) \<Rightarrow>
        ebind (dict_get j xA) (\<lambda>xj.
          ebind (efold (rho3_r_body rst reachable_states assumptions0 xj) [0..<length xj]
                   (ZERO, ZERO)) (\<lambda>(rho3_tmp, low).
            let jx_equal_j = jp1;
                jp1 = swapVariables_jx jp1;
                rho3 = rho3 \<union> (rho3_tmp \<inter> jx_equal_j \<inter> jp1);
                jp1 = bdd_cofactor mod_trans jx_equal_j;
                jp1 = swapVariables_jx jp1
            in Inr (rho3, jp1))))"

definition calc_rho3 ::
  "(('i, 'o, 'm) bdd \<Rightarrow> ('i, 'o, 'm) bdd \<Rightarrow> ('i, 'o, 'm) bdd) \<Rightarrow>
   ('i, 'o, 'm) WinningRegion \<Rightarrow> nat \<Rightarrow> ('i, 'o, 'm) bdd \<Rightarrow> error + ('i, 'o, 'm) bdd" where
  "calc_rho3 rst w n reachable_states =
     (case transitionjx w of None \<Rightarrow> Inl MardukException | Some mod_trans \<Rightarrow>
      case initjx w of None \<Rightarrow> Inl AttributeError | Some start_state \<Rightarrow>
      case jx_ps_vars w of None \<Rightarrow> Inl TypeError | Some jx_present_vars \<Rightarrow>
      case jx_ns_vars w of None \<Rightarrow> Inl TypeError | Some jx_next_vars \<Rightarrow>
      if assumptions w = [] then Inl NameError
      else ebind (efold (rho3_j_body rst reachable_states mod_trans (assumptions w) (xArray w))
                    [0..<n] (ZERO, start_state)) (\<lambda>(rho3, jp1).
             Inr (rho3 \<inter> transition12 w)))"

text \<open>\<open>_calc_rho2\<close>.  The inner loop runs over \<open>range(1,maxr)\<close> with the state
  \<open>(rho2_tmp, low)\<close>; \<open>low\<close> starts as \<open>yArray[j][0]\<close>.\<close>

definition rho2_r_body ::
  "(('i, 'o, 'm) bdd \<Rightarrow> ('i, 'o, 'm) bdd \<Rightarrow> ('i, 'o, 'm) bdd) \<Rightarrow> ('i, 'o, 'm) bdd \<Rightarrow>
   (nat \<times> ('i, 'o, 'm) bdd) list \<Rightarrow> nat \<Rightarrow>
   ('i, 'o, 'm) bdd \<times> ('i, 'o, 'm) bdd \<Rightarrow> error + ('i, 'o, 'm) bdd \<times> ('i, 'o, 'm) bdd" where
  "rho2_r_body rst reachable_states yj r st =
     (case st of (rho2_tmp, low) \<Rightarrow>
        let next_low = swapVariables_io low in
        ebind (dict_get r yj) (\<lambda>y.
          Inr (rho2_tmp \<union> (rst y reachable_states \<inter> rst (- low) reachable_states \<inter> next_low),
               low \<union> y)))"

definition rho2_j_body ::
  "(('i, 'o, 'm) bdd \<Rightarrow> ('i, 'o, 'm) bdd \<Rightarrow> ('i, 'o, 'm) bdd) \<Rightarrow> ('i, 'o, 'm) bdd \<Rightarrow>
   ('i, 'o, 'm) bdd \<Rightarrow> ('i, 'o, 'm) yarray \<Rightarrow> nat \<Rightarrow>
   ('i, 'o, 'm) bdd \<times> ('i, 'o, 'm) bdd \<Rightarrow> error + ('i, 'o, 'm) bdd \<times> ('i, 'o, 'm) bdd" where
  "rho2_j_body rst reachable_states mod_trans yA j st =
     (case st of (rho2, jp1) \<Rightarrow>
        ebind (dict_get j yA) (\<lambda>yj.
          ebind (dict_get 0 yj) (\<lambda>low.
            ebind (efold (rho2_r_body rst reachable_states yj) [1..<length yj] (ZERO, low))
              (\<lambda>(rho2_tmp, low).
                let jx_equal_j = jp1;
                    jp1 = swapVariables_jx jp1;
                    rho2 = rho2 \<union> (rho2_tmp \<inter> jx_equal_j \<inter> jp1);
                    jp1 = bdd_cofactor mod_trans jx_equal_j;
                    jp1 = swapVariables_jx jp1
                in Inr (rho2, jp1)))))"

definition calc_rho2 ::
  "(('i, 'o, 'm) bdd \<Rightarrow> ('i, 'o, 'm) bdd \<Rightarrow> ('i, 'o, 'm) bdd) \<Rightarrow>
   ('i, 'o, 'm) WinningRegion \<Rightarrow> nat \<Rightarrow> ('i, 'o, 'm) bdd \<Rightarrow> error + ('i, 'o, 'm) bdd" where
  "calc_rho2 rst w n reachable_states =
     (case transitionjx w of None \<Rightarrow> Inl MardukException | Some mod_trans \<Rightarrow>
      case initjx w of None \<Rightarrow> Inl AttributeError | Some start_state \<Rightarrow>
      case jx_ps_vars w of None \<Rightarrow> Inl TypeError | Some jx_present_vars \<Rightarrow>
      case jx_ns_vars w of None \<Rightarrow> Inl TypeError | Some jx_next_vars \<Rightarrow>
      ebind (efold (rho2_j_body rst reachable_states mod_trans (yArray w)) [0..<n]
               (ZERO, start_state)) (\<lambda>(rho2, jp1).
        Inr (rho2 \<inter> transition12 w)))"

text \<open>\<open>_calc_rho1\<close>.\<close>

definition rho1_j_body ::
  "('i, 'o, 'm) bdd \<Rightarrow> ('i, 'o, 'm) bdd list \<Rightarrow> nat \<Rightarrow>
   ('i, 'o, 'm) bdd \<times> ('i, 'o, 'm) bdd \<Rightarrow> error + ('i, 'o, 'm) bdd \<times> ('i, 'o, 'm) bdd" where
  "rho1_j_body mod_trans guarantees0 j st =
     (case st of (rho1, jp1) \<Rightarrow>
        let jx_equal_j = jp1;
            jp1 = bdd_cofactor mod_trans jp1
        in ebind (list_get guarantees0 j) (\<lambda>g.
             Inr (rho1 \<union> (jx_equal_j \<inter> g \<inter> jp1), swapVariables_jx jp1)))"

definition calc_rho1 ::
  "('i, 'o, 'm) WinningRegion \<Rightarrow> nat \<Rightarrow> error + ('i, 'o, 'm) bdd" where
  "calc_rho1 w n =
     (case transitionjx w of None \<Rightarrow> Inl MardukException | Some mod_trans \<Rightarrow>
      case initjx w of None \<Rightarrow> Inl AttributeError | Some start_state \<Rightarrow>
      case jx_ps_vars w of None \<Rightarrow> Inl TypeError | Some jx_present_vars \<Rightarrow>
      case jx_ns_vars w of None \<Rightarrow> Inl TypeError | Some jx_next_vars \<Rightarrow>
      if guarantees w = [] then Inl MardukException
      else ebind (efold (rho1_j_body mod_trans (guarantees w)) [0..<n] (ZERO, start_state))
             (\<lambda>(rho1, jp1).
               let next_winRegion = swapVariables_io (winningRegion w)
               in Inr (rho1 \<inter> (winningRegion w \<inter> transition12 w \<inter> next_winRegion))))"

text \<open>\<open>Strategy.calcStrategy\<close>: the value it stores in \<open>strategy_bdd\<close>.\<close>

definition calcStrategy ::
  "(('i, 'o, 'm) bdd \<Rightarrow> ('i, 'o, 'm) bdd \<Rightarrow> ('i, 'o, 'm) bdd) \<Rightarrow>
   ('i, 'o, 'm) WinningRegion \<Rightarrow> (error + ('i, 'o, 'm) bdd) option" where
  "calcStrategy rst w =
     (case reachableStates (init12 w) (transition12 w) ONE of
        None \<Rightarrow> None
      | Some reachable_states \<Rightarrow>
          Some (if guarantees w = [] then Inl MardukException
                else let n = length (guarantees w);
                         strategy = ZERO
                     in ebind (calc_rho3 rst w n reachable_states) (\<lambda>rho3.
                          let strategy = strategy \<union> rho3 in
                          ebind (calc_rho2 rst w n reachable_states) (\<lambda>rho2.
                            let strategy = strategy \<union> rho2 in
                            ebind (calc_rho1 w n) (\<lambda>rho1.
                              let strategy = strategy \<union> rho1
                              in Inr (rst strategy reachable_states))))))"

section \<open>The solver as the specification words it\<close>

text \<open>Section 4.2 of the specification gives the solver as pseudocode.  Its loops are
  "repeat until unchanged": the body is run, and the loop ends when the body has left
  the variable as it was.  No bound on the number of rounds is imposed, so the loop is a
  partial function; \<open>None\<close> is a loop that never ends (or a body that never returns).
  \<open>ALL_STATES\<close> is \<open>ONE\<close> and \<open>NONE\<close> is \<open>ZERO\<close>.\<close>

partial_function (option) repeat_until_unchanged ::
  "('a \<Rightarrow> 'a option) \<Rightarrow> 'a \<Rightarrow> 'a option" where
  "repeat_until_unchanged body x =
     (case body x of
        None \<Rightarrow> None
      | Some x' \<Rightarrow> if x' = x then Some x' else repeat_until_unchanged body x')"

declare repeat_until_unchanged.simps [code]

text \<open>\<open>X \<leftarrow> Z; repeat until X unchanged: X \<leftarrow> seed \<or> (\<not>assumption[i] \<and> coax(X))\<close>.\<close>

definition spec_X ::
  "('i, 'o, 'm) Specification \<Rightarrow> ('i, 'o, 'm) bdd \<Rightarrow> ('i, 'o, 'm) bdd \<Rightarrow> nat \<Rightarrow>
   ('i, 'o, 'm) bdd option" where
  "spec_X S Z seed i =
     repeat_until_unchanged (\<lambda>X. Some (seed \<union> (- (spec_assumptions S ! i) \<inter> coax S X))) Z"

text \<open>\<open>for i in 0..m: ...; Y \<leftarrow> Y \<or> X\<close>, over the indices still to be visited.\<close>

fun spec_for_i ::
  "('i, 'o, 'm) Specification \<Rightarrow> ('i, 'o, 'm) bdd \<Rightarrow> ('i, 'o, 'm) bdd \<Rightarrow> nat list \<Rightarrow>
   ('i, 'o, 'm) bdd \<Rightarrow> ('i, 'o, 'm) bdd option" where
  "spec_for_i S Z seed [] Y = Some Y"
| "spec_for_i S Z seed (i # is) Y =
     (case spec_X S Z seed i of
        None \<Rightarrow> None
      | Some X \<Rightarrow> spec_for_i S Z seed is (Y \<union> X))"

text \<open>One round of the least fixpoint on \<open>Y\<close>: the seed is built from the \<open>Y\<close> of the
  round before, \<open>Y\<close> is emptied and collects the converged \<open>X\<close> of every assumption.\<close>

definition spec_Y_round ::
  "('i, 'o, 'm) Specification \<Rightarrow> ('i, 'o, 'm) bdd \<Rightarrow> nat \<Rightarrow> ('i, 'o, 'm) bdd \<Rightarrow>
   ('i, 'o, 'm) bdd option" where
  "spec_Y_round S Z j Y =
     (let seed = (spec_guarantees S ! j \<inter> coax S Z) \<union> coax S Y
      in spec_for_i S Z seed [0..<length (spec_assumptions S)] ZERO)"

definition spec_Y ::
  "('i, 'o, 'm) Specification \<Rightarrow> ('i, 'o, 'm) bdd \<Rightarrow> nat \<Rightarrow> ('i, 'o, 'm) bdd option" where
  "spec_Y S Z j = repeat_until_unchanged (spec_Y_round S Z j) ZERO"

text \<open>\<open>for j in 0..n: ...; Z \<leftarrow> Y\<close>: \<open>Z\<close> is overwritten after each guarantee.\<close>

fun spec_for_j ::
  "('i, 'o, 'm) Specification \<Rightarrow> nat list \<Rightarrow> ('i, 'o, 'm) bdd \<Rightarrow> ('i, 'o, 'm) bdd option" where
  "spec_for_j S [] Z = Some Z"
| "spec_for_j S (j # js) Z =
     (case spec_Y S Z j of
        None \<Rightarrow> None
      | Some Y \<Rightarrow> spec_for_j S js Y)"

definition spec_solve :: "('i, 'o, 'm) Specification \<Rightarrow> ('i, 'o, 'm) bdd option" where
  "spec_solve S =
     repeat_until_unchanged (\<lambda>Z. spec_for_j S [0..<length (spec_guarantees S)] Z) ONE"

text \<open>The textbook variant the specification compares with: within a round every
  guarantee is solved against the \<open>Z\<close> the round started with, and \<open>Z\<close> is replaced once,
  at the end of the round, by the conjunction over all guarantees.\<close>

fun textbook_for_j ::
  "('i, 'o, 'm) Specification \<Rightarrow> ('i, 'o, 'm) bdd \<Rightarrow> nat list \<Rightarrow> ('i, 'o, 'm) bdd \<Rightarrow>
   ('i, 'o, 'm) bdd option" where
  "textbook_for_j S Z [] acc = Some acc"
| "textbook_for_j S Z (j # js) acc =
     (case spec_Y S Z j of
        None \<Rightarrow> None
      | Some Y \<Rightarrow> textbook_for_j S Z js (acc \<inter> Y))"

definition textbook_solve :: "('i, 'o, 'm) Specification \<Rightarrow> ('i, 'o, 'm) bdd option" where
  "textbook_solve S =
     repeat_until_unchanged
       (\<lambda>Z. textbook_for_j S Z [0..<length (spec_guarantees S)] ONE) ONE"

section \<open>The fixpoints the loops compute\<close>

text \<open>The body of the innermost loop, and the set it converges to when started from
  \<open>z\<close>: the largest subset \<open>q\<close> of \<open>z\<close> with \<open>q \<subseteq> x_step q\<close>.\<close>

definition x_step ::
  "('i, 'o, 'm) Specification \<Rightarrow> ('i, 'o, 'm) bdd \<Rightarrow> ('i, 'o, 'm) bdd \<Rightarrow>
   ('i, 'o, 'm) bdd \<Rightarrow> ('i, 'o, 'm) bdd" where
  "x_step S start a x = start \<union> ((- a) \<inter> coax S x)"

definition Xfix ::
  "('i, 'o, 'm) Specification \<Rightarrow> ('i, 'o, 'm) bdd \<Rightarrow> ('i, 'o, 'm) bdd \<Rightarrow>
   ('i, 'o, 'm) bdd \<Rightarrow> ('i, 'o, 'm) bdd" where
  "Xfix S z start a = \<Union>{q. q \<subseteq> z \<and> q \<subseteq> x_step S start a q}"

definition y_start ::
  "('i, 'o, 'm) Specification \<Rightarrow> ('i, 'o, 'm) bdd \<Rightarrow> nat \<Rightarrow> ('i, 'o, 'm) bdd \<Rightarrow>
   ('i, 'o, 'm) bdd" where
  "y_start S z j y = (spec_guarantees S ! j \<inter> coax S z) \<union> coax S y"

text \<open>One pass of the loop on \<open>y\<close>, its iterates from the empty set, the number of
  passes until two successive iterates agree, and the value reached.\<close>

definition Ystep ::
  "('i, 'o, 'm) Specification \<Rightarrow> ('i, 'o, 'm) bdd \<Rightarrow> nat \<Rightarrow> ('i, 'o, 'm) bdd \<Rightarrow>
   ('i, 'o, 'm) bdd" where
  "Ystep S z j y =
     (\<Union>i \<in> {0..<length (spec_assumptions S)}. Xfix S z (y_start S z j y) (spec_assumptions S ! i))"

definition Yiter ::
  "('i, 'o, 'm) Specification \<Rightarrow> ('i, 'o, 'm) bdd \<Rightarrow> nat \<Rightarrow> nat \<Rightarrow> ('i, 'o, 'm) bdd" where
  "Yiter S z j k = ((Ystep S z j) ^^ k) {}"

definition Ycount :: "('i, 'o, 'm) Specification \<Rightarrow> ('i, 'o, 'm) bdd \<Rightarrow> nat \<Rightarrow> nat" where
  "Ycount S z j = (LEAST k. Yiter S z j (Suc k) = Yiter S z j k)"

definition Yfix ::
  "('i, 'o, 'm) Specification \<Rightarrow> ('i, 'o, 'm) bdd \<Rightarrow> nat \<Rightarrow> ('i, 'o, 'm) bdd" where
  "Yfix S z j = Yiter S z j (Ycount S z j)"

text \<open>The rows the loop on \<open>y\<close> records in its pass number \<open>k\<close> (counted from 0).\<close>

definition x_row ::
  "('i, 'o, 'm) Specification \<Rightarrow> ('i, 'o, 'm) bdd \<Rightarrow> nat \<Rightarrow> nat \<Rightarrow>
   nat \<times> (nat \<times> ('i, 'o, 'm) bdd) list" where
  "x_row S z j k =
     (k, map (\<lambda>i. (i, Xfix S z (y_start S z j (Yiter S z j k)) (spec_assumptions S ! i)))
           [0..<length (spec_assumptions S)])"

definition y_row ::
  "('i, 'o, 'm) Specification \<Rightarrow> ('i, 'o, 'm) bdd \<Rightarrow> nat \<Rightarrow> nat \<Rightarrow> nat \<times> ('i, 'o, 'm) bdd" where
  "y_row S z j k = (k, Yiter S z j (Suc k))"

text \<open>The dictionaries \<open>xArray[j]\<close> and \<open>yArray[j]\<close> that remain when the loop on \<open>y\<close>
  has ended and its last pass has been removed again.\<close>

definition x_rows ::
  "('i, 'o, 'm) Specification \<Rightarrow> ('i, 'o, 'm) bdd \<Rightarrow> nat \<Rightarrow>
   (nat \<times> (nat \<times> ('i, 'o, 'm) bdd) list) list" where
  "x_rows S z j = map (x_row S z j) [0..<Ycount S z j]"

definition y_rows ::
  "('i, 'o, 'm) Specification \<Rightarrow> ('i, 'o, 'm) bdd \<Rightarrow> nat \<Rightarrow> (nat \<times> ('i, 'o, 'm) bdd) list" where
  "y_rows S z j = map (y_row S z j) [0..<Ycount S z j]"

text \<open>A pass over the guarantees \<open>js\<close>, and the largest set that no guarantee's
  fixpoint makes smaller.\<close>

definition Zround :: "('i, 'o, 'm) Specification \<Rightarrow> nat list \<Rightarrow> ('i, 'o, 'm) bdd \<Rightarrow> ('i, 'o, 'm) bdd" where
  "Zround S js z = fold (\<lambda>j z. Yfix S z j) js z"

definition Wfix :: "('i, 'o, 'm) Specification \<Rightarrow> ('i, 'o, 'm) bdd" where
  "Wfix S = \<Union>{W. \<forall>j < length (spec_guarantees S). W \<subseteq> Yfix S W j}"

text \<open>What holds of \<open>z\<close> whenever the loop on \<open>y\<close> is entered.\<close>

definition z_inv :: "('i, 'o, 'm) Specification \<Rightarrow> ('i, 'o, 'm) bdd \<Rightarrow> bool" where
  "z_inv S z \<longleftrightarrow> coax S z \<subseteq> z \<or> (spec_assumptions S = [] \<and> z = {})"

section \<open>The loop heads a run passes through\<close>

text \<open>The places at which \<open>calcWinningRegion\<close> tests a loop condition, with the values of
  the variables in scope there: the head of \<open>while(z != old_z)\<close>, of \<open>for j\<close> (with the
  indices still to be visited), of \<open>while(y != old_y)\<close>, of \<open>for i\<close> and of
  \<open>while (x != old_x)\<close>.\<close>

datatype ('i, 'o, 'm) point =
    At_z "('i, 'o, 'm) bdd" "('i, 'o, 'm) bdd" "('i, 'o, 'm) xarray" "('i, 'o, 'm) yarray"
  | At_j "nat list" "('i, 'o, 'm) bdd" "('i, 'o, 'm) xarray" "('i, 'o, 'm) yarray"
  | At_y "('i, 'o, 'm) bdd" nat nat "('i, 'o, 'm) bdd" "('i, 'o, 'm) bdd"
         "(nat \<times> (nat \<times> ('i, 'o, 'm) bdd) list) list" "(nat \<times> ('i, 'o, 'm) bdd) list"
  | At_i "('i, 'o, 'm) bdd" "('i, 'o, 'm) bdd" "nat list" "('i, 'o, 'm) bdd"
         "(nat \<times> ('i, 'o, 'm) bdd) list"
  | At_x "('i, 'o, 'm) bdd" "('i, 'o, 'm) bdd" "('i, 'o, 'm) bdd" "('i, 'o, 'm) bdd"

text \<open>\<open>reach S p\<close>: the run of \<open>calcWinningRegion\<close> on \<open>S\<close> comes to the loop head \<open>p\<close>.
  A loop is entered from the enclosing loop's head, and it is left with the values the
  loop functions above return.  The arguments of \<open>At_z\<close> are \<open>old_z\<close>, \<open>z\<close> and the two
  arrays; of \<open>At_j\<close> the indices to visit, \<open>z\<close> and the arrays; of \<open>At_y\<close> \<open>z\<close>, \<open>j\<close>, \<open>r\<close>,
  \<open>old_y\<close>, \<open>y\<close> and the two dictionaries of \<open>j\<close>; of \<open>At_i\<close> \<open>z\<close>, \<open>start\<close>, the indices
  to visit, \<open>y\<close> and the row; of \<open>At_x\<close> \<open>start\<close>, the assumption, \<open>old_x\<close> and \<open>x\<close>.\<close>

inductive reach :: "('i, 'o, 'm) Specification \<Rightarrow> ('i, 'o, 'm) point \<Rightarrow> bool"
  for S :: "('i, 'o, 'm) Specification" where
  reach_init: "reach S (At_z ZERO ONE [] [])"
| reach_round:
    "reach S (At_z old_z z xA yA) \<Longrightarrow> z \<noteq> old_z \<Longrightarrow>
     reach S (At_j [0..<length (spec_guarantees S)] z xA yA)"
| reach_enter_y:
    "reach S (At_j (j # js) z xA yA) \<Longrightarrow> reach S (At_y z j 0 ONE ZERO [] [])"
| reach_enter_i:
    "reach S (At_y z j r old_y y xj yj) \<Longrightarrow> y \<noteq> old_y \<Longrightarrow>
     reach S (At_i z ((spec_guarantees S ! j \<inter> coax S z) \<union> coax S y)
                [0..<length (spec_assumptions S)] ZERO [])"
| reach_enter_x:
    "reach S (At_i z start (i # is) y xr) \<Longrightarrow>
     reach S (At_x start (spec_assumptions S ! i) ZERO z)"
| reach_x:
    "reach S (At_x start a old_x x) \<Longrightarrow> x \<noteq> old_x \<Longrightarrow>
     reach S (At_x start a x (start \<union> ((- a) \<inter> coax S x)))"
| reach_i:
    "reach S (At_i z start (i # is) y xr) \<Longrightarrow>
     x_loop S start (spec_assumptions S ! i) ZERO z = Some x \<Longrightarrow>
     reach S (At_i z start is (y \<union> x) (AList.update i x xr))"
| reach_y:
    "reach S (At_y z j r old_y y xj yj) \<Longrightarrow> y \<noteq> old_y \<Longrightarrow>
     i_loop S z ((spec_guarantees S ! j \<inter> coax S z) \<union> coax S y)
       [0..<length (spec_assumptions S)] ZERO [] = Some (y', xr) \<Longrightarrow>
     reach S (At_y z j (r + 1) y y' (AList.update r xr xj) (AList.update r y' yj))"
| reach_j:
    "reach S (At_j (j # js) z xA yA) \<Longrightarrow>
     y_loop S z j 0 ONE ZERO [] [] = Some (r, y, xj, yj) \<Longrightarrow>
     dict_pop (r - 1) yj = Inr yj' \<Longrightarrow> dict_pop (r - 1) xj = Inr xj' \<Longrightarrow>
     reach S (At_j js y (AList.update j xj' xA) (AList.update j yj' yA))"
| reach_z:
    "reach S (At_z old_z z xA yA) \<Longrightarrow> z \<noteq> old_z \<Longrightarrow>
     j_loop S [0..<length (spec_guarantees S)] z xA yA = Some (Inr (z', xA', yA')) \<Longrightarrow>
     reach S (At_z z z' xA' yA')"

text \<open>What holds at every loop head that is reached.\<close>

fun point_inv :: "('i, 'o, 'm) Specification \<Rightarrow> ('i, 'o, 'm) point \<Rightarrow> bool" where
  "point_inv S (At_z old_z z xA yA) = z_inv S z"
| "point_inv S (At_j js z xA yA) = (z_inv S z \<and> distinct js)"
| "point_inv S (At_y z j r old_y y xj yj) = (z_inv S z \<and> (\<exists>k. y = Yiter S z j k))"
| "point_inv S (At_i z start is y xr) = (z = {} \<or> (start \<subseteq> z \<and> coax S z \<subseteq> z))"
| "point_inv S (At_x start a old_x x) = (x = old_x \<or> x_step S start a x \<subseteq> x)"

section \<open>The memory counter in the strategy\<close>

text \<open>The cube "the present memory has the value \<open>c\<close>" and its next-state twin.\<close>

definition jx_cube :: "'m \<Rightarrow> ('i, 'o, 'm) bdd" where
  "jx_cube c = {v. snd (snd (fst v)) = c}"

definition jx_ncube :: "'m \<Rightarrow> ('i, 'o, 'm) bdd" where
  "jx_ncube c = {v. snd (snd (snd v)) = c}"

text \<open>\<open>jx_ok w n enc\<close>: the memory fields of \<open>w\<close> are those of a counter modulo \<open>n\<close> whose
  value \<open>j\<close> is encoded by the memory valuation \<open>enc j\<close>: it starts at \<open>enc 0\<close>, and the
  cofactor of the transition relation by the cube of \<open>enc j\<close> is the next-state cube of
  \<open>enc ((j + 1) mod n)\<close>.\<close>

definition jx_ok :: "('i, 'o, 'm) WinningRegion \<Rightarrow> nat \<Rightarrow> (nat \<Rightarrow> 'm) \<Rightarrow> bool" where
  "jx_ok w n enc \<longleftrightarrow>
     (\<exists>T. transitionjx w = Some T \<and>
          (\<forall>j < n. bdd_cofactor T (jx_cube (enc j)) = jx_ncube (enc ((j + 1) mod n)))) \<and>
     initjx w = Some (jx_cube (enc 0)) \<and> jx_ps_vars w \<noteq> None \<and> jx_ns_vars w \<noteq> None"

text \<open>Rule 3: everything recorded for a guarantee before the entry \<open>(r, i)\<close>, in the
  order of the loops (all of the rows before \<open>r\<close>, and the entries before \<open>i\<close> of row
  \<open>r\<close>), and the term the entry \<open>(r, i)\<close> adds to \<open>rho3_tmp\<close>.  \<open>X r i\<close> is the entry and \<open>m\<close>
  the length of a row.\<close>

definition low3 :: "(nat \<Rightarrow> nat \<Rightarrow> ('i, 'o, 'm) bdd) \<Rightarrow> nat \<Rightarrow> nat \<Rightarrow> nat \<Rightarrow> ('i, 'o, 'm) bdd" where
  "low3 X m r i = (\<Union>r' \<in> {0..<r}. \<Union>i' \<in> {0..<m}. X r' i') \<union> (\<Union>i' \<in> {0..<i}. X r i')"

definition term3 ::
  "(('i, 'o, 'm) bdd \<Rightarrow> ('i, 'o, 'm) bdd \<Rightarrow> ('i, 'o, 'm) bdd) \<Rightarrow> ('i, 'o, 'm) bdd \<Rightarrow>
   ('i, 'o, 'm) bdd list \<Rightarrow> (nat \<Rightarrow> nat \<Rightarrow> ('i, 'o, 'm) bdd) \<Rightarrow> nat \<Rightarrow> nat \<Rightarrow> nat \<Rightarrow>
   ('i, 'o, 'm) bdd" where
  "term3 rst care as X m r i =
     rst (X r i) care \<inter> rst (- low3 X m r i) care \<inter> (- (as ! i)) \<inter> swapVariables_io (X r i)"

text \<open>All of the terms of one guarantee, whose dictionary has \<open>R\<close> rows.\<close>

definition rule3 ::
  "(('i, 'o, 'm) bdd \<Rightarrow> ('i, 'o, 'm) bdd \<Rightarrow> ('i, 'o, 'm) bdd) \<Rightarrow> ('i, 'o, 'm) bdd \<Rightarrow>
   ('i, 'o, 'm) bdd list \<Rightarrow> (nat \<Rightarrow> nat \<Rightarrow> ('i, 'o, 'm) bdd) \<Rightarrow> nat \<Rightarrow> nat \<Rightarrow> ('i, 'o, 'm) bdd" where
  "rule3 rst care as X m R = (\<Union>r \<in> {0..<R}. \<Union>i \<in> {0..<m}. term3 rst care as X m r i)"

text \<open>Rule 2: what is below the entry \<open>r\<close> of \<open>yArray[j]\<close>, and the term the entry adds.\<close>

definition low2 :: "(nat \<Rightarrow> ('i, 'o, 'm) bdd) \<Rightarrow> nat \<Rightarrow> ('i, 'o, 'm) bdd" where
  "low2 Y r = (\<Union>r' \<in> {0..<r}. Y r')"

definition term2 ::
  "(('i, 'o, 'm) bdd \<Rightarrow> ('i, 'o, 'm) bdd \<Rightarrow> ('i, 'o, 'm) bdd) \<Rightarrow> ('i, 'o, 'm) bdd \<Rightarrow>
   (nat \<Rightarrow> ('i, 'o, 'm) bdd) \<Rightarrow> nat \<Rightarrow> ('i, 'o, 'm) bdd" where
  "term2 rst care Y r =
     rst (Y r) care \<inter> rst (- low2 Y r) care \<inter> swapVariables_io (low2 Y r)"

text \<open>All of the terms of one guarantee; the loop starts at row 1.\<close>

definition rule2 ::
  "(('i, 'o, 'm) bdd \<Rightarrow> ('i, 'o, 'm) bdd \<Rightarrow> ('i, 'o, 'm) bdd) \<Rightarrow> ('i, 'o, 'm) bdd \<Rightarrow>
   (nat \<Rightarrow> ('i, 'o, 'm) bdd) \<Rightarrow> nat \<Rightarrow> ('i, 'o, 'm) bdd" where
  "rule2 rst care Y R = (\<Union>r \<in> {1..<R}. term2 rst care Y r)"

text \<open>The shape of the arrays \<open>calcWinningRegion\<close> leaves behind: for the guarantee \<open>j\<close>,
  \<open>R j\<close> rows with the keys \<open>0, ..., R j - 1\<close>, each row of \<open>xArray[j]\<close> with the keys
  \<open>0, ..., m - 1\<close>.\<close>

definition x_shape ::
  "('i, 'o, 'm) xarray \<Rightarrow> nat \<Rightarrow> nat \<Rightarrow> (nat \<Rightarrow> nat) \<Rightarrow>
   (nat \<Rightarrow> nat \<Rightarrow> nat \<Rightarrow> ('i, 'o, 'm) bdd) \<Rightarrow> bool" where
  "x_shape xA n m R X \<longleftrightarrow>
     (\<forall>j < n. map_of xA j =
        Some (map (\<lambda>r. (r, map (\<lambda>i. (i, X j r i)) [0..<m])) [0..<R j]))"

definition y_shape ::
  "('i, 'o, 'm) yarray \<Rightarrow> nat \<Rightarrow> (nat \<Rightarrow> nat) \<Rightarrow> (nat \<Rightarrow> nat \<Rightarrow> ('i, 'o, 'm) bdd) \<Rightarrow> bool" where
  "y_shape yA n R Y \<longleftrightarrow> (\<forall>j < n. map_of yA j = Some (map (\<lambda>r. (r, Y j r)) [0..<R j]))"

section \<open>Reachable states and well-formed specifications\<close>

text \<open>A BDD over present-state variables only, and one pass of the loop of
  \<open>reachableStates\<close> when \<open>invar\<close> is \<open>BDD.ONE\<close>.\<close>

definition ps_only :: "('i, 'o, 'm) bdd \<Rightarrow> bool" where
  "ps_only f \<longleftrightarrow> (\<forall>p n n'. (p, n) \<in> f \<longrightarrow> (p, n') \<in> f)"

definition reach_step :: "('i, 'o, 'm) bdd \<Rightarrow> ('i, 'o, 'm) bdd \<Rightarrow> ('i, 'o, 'm) bdd" where
  "reach_step T rs = rs \<union> swapVariables_all (andExists_ps_all rs T)"

text \<open>The variables a BDD of the specification may mention.  A state predicate mentions
  only present-state INPUT and OUTPUT variables; the environment's transition relation
  mentions those and the next-state INPUT variables, the system's transition relation
  those and the next-state INPUT and OUTPUT variables.  None mentions a memory
  variable.  \<open>io_closure f\<close> is the least state predicate above \<open>f\<close>.\<close>

definition state_pred :: "('i, 'o, 'm) bdd \<Rightarrow> bool" where
  "state_pred f \<longleftrightarrow> (\<forall>i o1 m n m2 n2. ((i, o1, m), n) \<in> f \<longrightarrow> ((i, o1, m2), n2) \<in> f)"

definition env_trans_pred :: "('i, 'o, 'm) bdd \<Rightarrow> bool" where
  "env_trans_pred f \<longleftrightarrow>
     (\<forall>i o1 m i' o' m' m2 o2 m2'.
        ((i, o1, m), (i', o', m')) \<in> f \<longrightarrow> ((i, o1, m2), (i', o2, m2')) \<in> f)"

definition sys_trans_pred :: "('i, 'o, 'm) bdd \<Rightarrow> bool" where
  "sys_trans_pred f \<longleftrightarrow>
     (\<forall>i o1 m i' o' m' m2 m2'.
        ((i, o1, m), (i', o', m')) \<in> f \<longrightarrow> ((i, o1, m2), (i', o', m2')) \<in> f)"

definition well_formed :: "('i, 'o, 'm) Specification \<Rightarrow> bool" where
  "well_formed S \<longleftrightarrow>
     state_pred (spec_init1 S) \<and> state_pred (spec_init2 S) \<and>
     env_trans_pred (spec_trans1 S) \<and> sys_trans_pred (spec_trans2 S) \<and>
     (\<forall>a \<in> set (spec_assumptions S). state_pred a) \<and>
     (\<forall>g \<in> set (spec_guarantees S). state_pred g)"

definition io_closure :: "('i, 'o, 'm) bdd \<Rightarrow> ('i, 'o, 'm) bdd" where
  "io_closure f = {v. \<exists>m n. ((fst (fst v), fst (snd (fst v)), m), n) \<in> f}"

text \<open>The entries \<open>xArray[j][r][i]\<close> and \<open>yArray[j][r]\<close> and the number of rows that
  \<open>calcWinningRegion\<close> leaves for the guarantee \<open>j\<close>.\<close>

definition x_entry ::
  "('i, 'o, 'm) Specification \<Rightarrow> nat \<Rightarrow> nat \<Rightarrow> nat \<Rightarrow> ('i, 'o, 'm) bdd" where
  "x_entry S j r i =
     Xfix S (Wfix S) (y_start S (Wfix S) j (Yiter S (Wfix S) j r)) (spec_assumptions S ! i)"

definition y_entry :: "('i, 'o, 'm) Specification \<Rightarrow> nat \<Rightarrow> nat \<Rightarrow> ('i, 'o, 'm) bdd" where
  "y_entry S j r = Yiter S (Wfix S) j (Suc r)"

definition row_count :: "('i, 'o, 'm) Specification \<Rightarrow> nat \<Rightarrow> nat" where
  "row_count S j = Ycount S (Wfix S) j"

text \<open>What \<open>_moduloInc\<close> expects of the memory variables it asks the manager for: the
  bits it creates (\<open>n\<close> of them for the one-hot encoding, \<open>num_of_bits n\<close> for the binary
  one) decide the memory valuation, and \<open>enc j\<close> is the valuation that encodes the counter
  value \<open>j\<close>: only bit \<open>j\<close> set, or the binary digits of \<open>j\<close>.\<close>

definition bits_decide :: "(nat \<Rightarrow> 'm \<Rightarrow> bool) \<Rightarrow> nat \<Rightarrow> bool" where
  "bits_decide b k \<longleftrightarrow> (\<forall>m m'. (\<forall>i < k. b i m = b i m') \<longrightarrow> m = m')"

definition memory_ok :: "'m Marduk \<Rightarrow> nat \<Rightarrow> (nat \<Rightarrow> 'm) \<Rightarrow> bool" where
  "memory_ok marduk n enc \<longleftrightarrow>
     (if one_hot marduk
      then bits_decide (jx_bit marduk) n \<and>
           (\<forall>j < n. \<forall>k < n. jx_bit marduk k (enc j) \<longleftrightarrow> k = j)
      else bits_decide (jx_bit marduk) (num_of_bits n) \<and>
           (\<forall>j < n. \<forall>k < num_of_bits n. jx_bit marduk k (enc j) \<longleftrightarrow> odd (j div 2 ^ k)))"

section \<open>Example objects\<close>

text \<open>Small concrete objects on which the theorems below are instantiated: one output
  bit, no input bit.\<close>

definition wr_ex :: "('i, bool, 'm) bdd \<Rightarrow> ('i, bool, 'm) bdd \<Rightarrow> ('i, bool, 'm) bdd
   \<Rightarrow> ('i, bool, 'm) WinningRegion" where
  "wr_ex W i1 i2 = \<lparr> winningRegion = W, xArray = [], yArray = [],
      guarantees = [], assumptions = [], transition1 = ONE, transition2 = ONE,
      transition12 = ONE, transitionjx = Some ONE, init1 = i1, init2 = i2,
      init12 = i1 \<inter> i2, init = None, initjx = Some ONE, jx_ps_vars = Some [],
      jx_ns_vars = Some [] \<rparr>"

definition out_high :: "(unit, bool, unit) bdd" where
  "out_high = {v. fst (snd (fst v))}"

text \<open>Games over one output bit: the guarantee asks for the bit to be set.  In
  \<open>game_free\<close> the system may change the bit as it likes, in \<open>game_keep\<close> the bit keeps
  its value for ever, and \<open>game_no_assumption\<close> is \<open>game_free\<close> without its assumption.
  In \<open>game_stuck\<close> the environment has no move at all.\<close>

definition game_free :: "(unit, bool, unit) Specification" where
  "game_free = \<lparr> spec_init1 = ONE, spec_init2 = ONE, spec_trans1 = ONE, spec_trans2 = ONE,
       spec_assumptions = [ONE], spec_guarantees = [out_high] \<rparr>"

definition game_keep :: "(unit, bool, unit) Specification" where
  "game_keep = \<lparr> spec_init1 = ONE, spec_init2 = ONE, spec_trans1 = ONE,
       spec_trans2 = {v. fst (snd (snd v)) = fst (snd (fst v))},
       spec_assumptions = [ONE], spec_guarantees = [out_high] \<rparr>"

definition game_no_assumption :: "(unit, bool, unit) Specification" where
  "game_no_assumption = \<lparr> spec_init1 = ONE, spec_init2 = ONE, spec_trans1 = ONE,
       spec_trans2 = ONE, spec_assumptions = [], spec_guarantees = [out_high] \<rparr>"

definition game_stuck :: "(unit, bool, unit) Specification" where
  "game_stuck = \<lparr> spec_init1 = ONE, spec_init2 = ONE, spec_trans1 = {}, spec_trans2 = ONE,
       spec_assumptions = [ONE], spec_guarantees = [ONE] \<rparr>"

definition marduk_unit :: "unit Marduk" where
  "marduk_unit = \<lparr> one_hot = True, jx_bit = (\<lambda>k m. True) \<rparr>"

text \<open>\<open>game_both\<close> is \<open>game_keep\<close> with a second guarantee that asks for the bit to be
  clear: no state is winning.\<close>

definition game_both :: "(unit, bool, unit) Specification" where
  "game_both = \<lparr> spec_init1 = ONE, spec_init2 = ONE, spec_trans1 = ONE,
       spec_trans2 = {v. fst (snd (snd v)) = fst (snd (fst v))},
       spec_assumptions = [ONE], spec_guarantees = [out_high, - out_high] \<rparr>"

text \<open>\<open>game_two\<close> has two guarantees, both asking for the output bit to be set, and the
  assumption that the bit is set; the memory is one bit in the binary encoding.
  \<open>rst_id\<close> is the restrict operator that returns its first argument unchanged.\<close>

definition out_high_m :: "(unit, bool, bool) bdd" where
  "out_high_m = {v. fst (snd (fst v))}"

definition game_two :: "(unit, bool, bool) Specification" where
  "game_two = \<lparr> spec_init1 = ONE, spec_init2 = ONE, spec_trans1 = ONE, spec_trans2 = ONE,
       spec_assumptions = [out_high_m], spec_guarantees = [out_high_m, out_high_m] \<rparr>"

definition marduk_bit :: "bool Marduk" where
  "marduk_bit = \<lparr> one_hot = False, jx_bit = (\<lambda>k m. m) \<rparr>"

definition rst_id :: "('i, 'o, 'm) bdd \<Rightarrow> ('i, 'o, 'm) bdd \<Rightarrow> ('i, 'o, 'm) bdd" where
  "rst_id f c = f"

text \<open>The object \<open>calcWinningRegion\<close> returns for \<open>game_two\<close>: every state is winning,
  each loop on \<open>y\<close> made two passes, and the memory bit is clear for the counter value 0
  and set for the value 1.\<close>

definition wr_two :: "(unit, bool, bool) WinningRegion" where
  "wr_two = \<lparr> winningRegion = ONE,
      xArray = [(0, [(0, [(0, ONE)])]), (1, [(0, [(0, ONE)])])],
      yArray = [(0, [(0, ONE)]), (1, [(0, ONE)])],
      guarantees = [out_high_m, out_high_m], assumptions = [out_high_m],
      transition1 = ONE, transition2 = ONE, transition12 = ONE,
      transitionjx = Some {v. snd (snd (snd v)) \<noteq> snd (snd (fst v))},
      init1 = ONE, init2 = ONE, init12 = ONE, init = None,
      initjx = Some {v. \<not> snd (snd (fst v))},
      jx_ps_vars = Some [{v. snd (snd (fst v))}],
      jx_ns_vars = Some [{v. snd (snd (snd v))}] \<rparr>"

definition enc_bit :: "nat \<Rightarrow> bool" where
  "enc_bit j = (j = 1)"

text \<open>In \<open>game_lost\<close> the guarantee never holds, so that no state is winning, and the
  environment has no initial state, so that the game is realizable all the same.
  \<open>wr_lost\<close> is the object \<open>calcWinningRegion\<close> returns for it: after the only pass of the
  loop on \<open>y\<close> has been removed again, \<open>xArray[0]\<close> and \<open>yArray[0]\<close> are empty.\<close>

definition game_lost :: "(unit, bool, unit) Specification" where
  "game_lost = \<lparr> spec_init1 = ZERO, spec_init2 = ONE, spec_trans1 = ONE, spec_trans2 = ONE,
       spec_assumptions = [ONE], spec_guarantees = [ZERO] \<rparr>"

definition wr_lost :: "(unit, bool, unit) WinningRegion" where
  "wr_lost = \<lparr> winningRegion = ZERO, xArray = [(0, [])], yArray = [(0, [])],
      guarantees = [ZERO], assumptions = [ONE],
      transition1 = ONE, transition2 = ONE, transition12 = ONE,
      transitionjx = Some ONE,
      init1 = ZERO, init2 = ONE, init12 = ZERO, init = None,
      initjx = Some ONE, jx_ps_vars = Some [ONE], jx_ns_vars = Some [ONE] \<rparr>"

section \<open>Evaluation of closed terms\<close>

text \<open>The variable types of the examples are enumerable, so \<open>BDD.ONE\<close> and complements
  can be computed as explicit finite sets, and \<open>isOne\<close> of an implication is decided as
  an inclusion.\<close>

lemma UNIV_enum_code [code_unfold]: "(UNIV :: ('a::enum) set) = set enum_class.enum"
  by (rule UNIV_enum)

lemma Compl_enum_code [code_unfold]: "- (A :: 'a::enum set) = set enum_class.enum - A"
  by (auto simp: UNIV_enum[symmetric])

lemma ONE_code [code]: "(ONE :: ('i::enum, 'o::enum, 'm::enum) bdd) = set enum_class.enum"
  by (simp add: ONE_def UNIV_enum[symmetric])

declare ONE_def [simp] ZERO_def [simp]

lemma isRealizable_code [code]:
  "isRealizable w =
     (let win_and_sys_initial = winningRegion w \<inter> init2 w;
          can_find_initial_output = exists_ps_out win_and_sys_initial;
          realizable = (init1 w \<subseteq> can_find_initial_output)
      in if realizable \<and> \<not> init12 w \<subseteq> winningRegion w then
           (let w = w\<lparr>init1 := init1 w \<inter> winningRegion w\<rparr>;
                w = w\<lparr>init2 := init2 w \<inter> winningRegion w\<rparr>;
                w = w\<lparr>init12 := init12 w \<inter> winningRegion w\<rparr>
            in case initjx w of
                 None \<Rightarrow> Inl TypeError
               | Some ijx \<Rightarrow> Inr (realizable, w\<lparr>init := Some (init12 w \<inter> ijx)\<rparr>))
         else Inr (realizable, w))"
proof -
  have eq: "((- init1 w) \<union> exists_ps_out (winningRegion w \<inter> init2 w) = UNIV)
      = (init1 w \<subseteq> exists_ps_out (winningRegion w \<inter> init2 w))" by blast
  show ?thesis unfolding isRealizable_def Let_def ONE_def eq by (rule refl)
qed

section \<open>Monotonicity of the operators\<close>

lemma coax_mono: "A \<subseteq> B \<Longrightarrow> coax S A \<subseteq> coax S B"
  unfolding coax_def Let_def forall_ns_in_def andExists_ns_out_def exists_ns_out_def
    swapVariables_all_def
  by blast

lemma x_step_mono:
  "A \<subseteq> B \<Longrightarrow> start \<subseteq> start' \<Longrightarrow> x_step S start a A \<subseteq> x_step S start' a B"
  unfolding x_step_def using coax_mono[of A B S] by blast

lemma Xfix_subset: "Xfix S z start a \<subseteq> z"
  unfolding Xfix_def by blast

lemma Xfix_greatest: "q \<subseteq> z \<Longrightarrow> q \<subseteq> x_step S start a q \<Longrightarrow> q \<subseteq> Xfix S z start a"
  unfolding Xfix_def by blast

lemma Xfix_post: "Xfix S z start a \<subseteq> x_step S start a (Xfix S z start a)"
proof
  fix v assume "v \<in> Xfix S z start a"
  then obtain q where q: "q \<subseteq> z" "q \<subseteq> x_step S start a q" "v \<in> q"
    unfolding Xfix_def by blast
  from q(1,2) have "q \<subseteq> Xfix S z start a" by (rule Xfix_greatest)
  then have "x_step S start a q \<subseteq> x_step S start a (Xfix S z start a)"
    by (rule x_step_mono) simp
  with q show "v \<in> x_step S start a (Xfix S z start a)" by blast
qed

lemma Xfix_mono:
  assumes "z \<subseteq> z'" "start \<subseteq> start'"
  shows "Xfix S z start a \<subseteq> Xfix S z' start' a"
proof (rule Xfix_greatest)
  show "Xfix S z start a \<subseteq> z'" using Xfix_subset[of S z start a] assms(1) by blast
  have "x_step S start a (Xfix S z start a) \<subseteq> x_step S start' a (Xfix S z start a)"
    by (rule x_step_mono) (simp_all add: assms)
  with Xfix_post[of S z start a]
  show "Xfix S z start a \<subseteq> x_step S start' a (Xfix S z start a)" by blast
qed

lemma Xfix_empty: "Xfix S {} start a = {}"
  using Xfix_subset[of S "{}" start a] by blast

lemma Xfix_fix:
  assumes "x_step S start a z \<subseteq> z"
  shows "x_step S start a (Xfix S z start a) = Xfix S z start a"
proof
  show "Xfix S z start a \<subseteq> x_step S start a (Xfix S z start a)" by (rule Xfix_post)
  have "x_step S start a (Xfix S z start a) \<subseteq> x_step S start a z"
    by (rule x_step_mono) (simp_all add: Xfix_subset)
  with assms have 1: "x_step S start a (Xfix S z start a) \<subseteq> z" by blast
  have 2: "x_step S start a (Xfix S z start a)
      \<subseteq> x_step S start a (x_step S start a (Xfix S z start a))"
    by (rule x_step_mono) (simp_all add: Xfix_post)
  from 1 2 show "x_step S start a (Xfix S z start a) \<subseteq> Xfix S z start a"
    by (rule Xfix_greatest)
qed

lemma Xfix_start:
  assumes "start \<subseteq> z"
  shows "start \<subseteq> Xfix S z start a"
  by (rule Xfix_greatest) (simp_all add: assms x_step_def)

lemma Xfix_step_eq:
  assumes "x_step S start a x \<subseteq> x"
  shows "Xfix S (x_step S start a x) start a = Xfix S x start a"
proof
  show "Xfix S (x_step S start a x) start a \<subseteq> Xfix S x start a"
    by (rule Xfix_mono) (simp_all add: assms)
  have "x_step S start a (Xfix S x start a) \<subseteq> x_step S start a x"
    by (rule x_step_mono) (simp_all add: Xfix_subset)
  with Xfix_post[of S x start a] have "Xfix S x start a \<subseteq> x_step S start a x" by blast
  then show "Xfix S x start a \<subseteq> Xfix S (x_step S start a x) start a"
    using Xfix_post[of S x start a] by (rule Xfix_greatest)
qed

section \<open>The innermost loop\<close>

lemma x_loop_Xfix:
  fixes x :: "('i::finite, 'o::finite, 'm::finite) bdd"
  assumes "x_step S start a x \<subseteq> x" "x \<noteq> old"
  shows "x_loop S start a old x = Some (Xfix S x start a)"
  using assms
proof (induction "card x" arbitrary: x old rule: less_induct)
  case less
  have unfold: "x_loop S start a old x = x_loop S start a x (x_step S start a x)"
    using less.prems(2) by (subst x_loop.simps) (simp add: x_step_def)
  show ?case
  proof (cases "x_step S start a x = x")
    case True
    then have "x_loop S start a x (x_step S start a x) = Some x"
      by (subst x_loop.simps) simp
    moreover have "Xfix S x start a = x"
      using Xfix_greatest[of x x S start a] Xfix_subset[of S x start a] True by auto
    ultimately show ?thesis using unfold by simp
  next
    case False
    with less.prems(1) have "x_step S start a x \<subset> x" by blast
    then have c: "card (x_step S start a x) < card x"
      by (simp add: psubset_card_mono)
    have m: "x_step S start a (x_step S start a x) \<subseteq> x_step S start a x"
      by (rule x_step_mono) (simp_all add: less.prems(1))
    from less.hyps[OF c m False]
    have "x_loop S start a x (x_step S start a x) = Some (Xfix S (x_step S start a x) start a)" .
    then show ?thesis using unfold Xfix_step_eq[OF less.prems(1)] by simp
  qed
qed

lemma x_loop_code:
  fixes z :: "('i::finite, 'o::finite, 'm::finite) bdd"
  assumes "z = {} \<or> x_step S start a z \<subseteq> z"
  shows "x_loop S start a {} z = Some (Xfix S z start a)"
proof (cases "z = {}")
  case True
  then show ?thesis by (subst x_loop.simps) (simp add: Xfix_empty)
next
  case False
  with assms show ?thesis by (intro x_loop_Xfix) auto
qed

section \<open>Dictionaries filled in ascending key order\<close>

lemma update_fresh_append:
  "k \<notin> fst ` set al \<Longrightarrow> AList.update k v al = al @ [(k, v)]"
  by (induction al) auto

lemma fold_update_upt:
  "fold (\<lambda>i. AList.update i (f i)) [0..<m] [] = map (\<lambda>i. (i, f i)) [0..<m]"
proof (induction m)
  case 0
  show ?case by simp
next
  case (Suc m)
  have "m \<notin> fst ` set (map (\<lambda>i. (i, f i)) [0..<m])" by (auto simp: image_iff)
  then show ?case using Suc by (simp add: update_fresh_append)
qed

lemma update_row_append:
  assumes "\<And>k. fst (row k) = k"
  shows "AList.update r (snd (row r)) (map row [0..<r]) = map row [0..<Suc r]"
proof -
  have "r \<notin> fst ` set (map row [0..<r])" using assms by (auto simp: image_iff)
  then have "AList.update r (snd (row r)) (map row [0..<r]) = map row [0..<r] @ [(r, snd (row r))]"
    by (rule update_fresh_append)
  also have "(r, snd (row r)) = row r" using assms[of r] by (cases "row r") simp
  finally show ?thesis by simp
qed

lemma dict_pop_last:
  assumes "\<And>k. fst (row k) = k"
  shows "dict_pop r (map row [0..<Suc r]) = Inr (map row [0..<r])"
proof -
  have fresh: "r \<notin> fst ` set (map row [0..<r])" using assms by (auto simp: image_iff)
  have m: "map_of (map row [0..<Suc r]) r = Some (snd (row r))"
  proof -
    from fresh have "map_of (map row [0..<r]) r = None" by (simp add: map_of_eq_None_iff)
    then have "map_of (map row [0..<r] @ [row r]) r = Some (snd (row r))"
      using assms[of r] by (cases "row r") (simp add: map_add_def)
    then show ?thesis by simp
  qed
  from fresh have d: "AList.delete r (map row [0..<r]) = map row [0..<r]" by simp
  have "AList.delete r (map row [0..<Suc r]) = map row [0..<r]"
    using d assms[of r] by (cases "row r") (simp add: AList.delete_eq)
  with m show ?thesis by (simp add: dict_pop_def)
qed

section \<open>The loop over the assumptions\<close>

lemma i_loop_code:
  fixes z :: "('i::finite, 'o::finite, 'm::finite) bdd"
  assumes "z = {} \<or> (\<forall>i \<in> set is. x_step S start (spec_assumptions S ! i) z \<subseteq> z)"
  shows "i_loop S z start is y xr =
           Some (y \<union> (\<Union>i \<in> set is. Xfix S z start (spec_assumptions S ! i)),
                 fold (\<lambda>i. AList.update i (Xfix S z start (spec_assumptions S ! i))) is xr)"
  using assms
proof (induction "is" arbitrary: y xr)
  case Nil
  show ?case by simp
next
  case (Cons i "is")
  have x: "x_loop S start (spec_assumptions S ! i) {} z = Some (Xfix S z start (spec_assumptions S ! i))"
    using Cons.prems by (intro x_loop_code) auto
  have "z = {} \<or> (\<forall>i \<in> set is. x_step S start (spec_assumptions S ! i) z \<subseteq> z)"
    using Cons.prems by auto
  from Cons.IH[OF this] x show ?case by (simp add: Un_assoc)
qed

lemma z_inv_x_step:
  assumes "z_inv S z" "y \<subseteq> z" "i < length (spec_assumptions S)"
  shows "x_step S (y_start S z j y) a z \<subseteq> z"
proof -
  from assms(1,3) have c: "coax S z \<subseteq> z" by (auto simp: z_inv_def)
  have "coax S y \<subseteq> coax S z" using assms(2) by (rule coax_mono)
  with c show ?thesis unfolding x_step_def y_start_def by blast
qed

lemma i_loop_Ystep:
  fixes z :: "('i::finite, 'o::finite, 'm::finite) bdd"
  assumes "z_inv S z" "y \<subseteq> z"
  shows "i_loop S z (y_start S z j y) [0..<length (spec_assumptions S)] {} [] =
           Some (Ystep S z j y,
                 map (\<lambda>i. (i, Xfix S z (y_start S z j y) (spec_assumptions S ! i)))
                     [0..<length (spec_assumptions S)])"
proof -
  have "z = {} \<or> (\<forall>i \<in> set [0..<length (spec_assumptions S)].
           x_step S (y_start S z j y) (spec_assumptions S ! i) z \<subseteq> z)"
    using z_inv_x_step[OF assms] by auto
  from i_loop_code[OF this, of "{}" "[]"]
  show ?thesis by (simp add: Ystep_def fold_update_upt)
qed

section \<open>The iterates of the loop on y\<close>

lemma y_start_mono: "z \<subseteq> z' \<Longrightarrow> y \<subseteq> y' \<Longrightarrow> y_start S z j y \<subseteq> y_start S z' j y'"
  unfolding y_start_def using coax_mono[of z z' S] coax_mono[of y y' S] by blast

lemma Ystep_mono:
  assumes "z \<subseteq> z'" "y \<subseteq> y'"
  shows "Ystep S z j y \<subseteq> Ystep S z' j y'"
proof -
  have "Xfix S z (y_start S z j y) a \<subseteq> Xfix S z' (y_start S z' j y') a" for a
    using assms by (intro Xfix_mono y_start_mono)
  then show ?thesis unfolding Ystep_def by blast
qed

lemma Ystep_subset: "Ystep S z j y \<subseteq> z"
  unfolding Ystep_def using Xfix_subset[of S z] by blast

lemma Yiter_Suc: "Yiter S z j (Suc k) = Ystep S z j (Yiter S z j k)"
  by (simp add: Yiter_def)

lemma Yiter_0: "Yiter S z j 0 = {}"
  by (simp add: Yiter_def)

lemma Yiter_subset: "Yiter S z j k \<subseteq> z"
  by (cases k) (simp_all add: Yiter_0 Yiter_Suc Ystep_subset)

lemma Yiter_chain: "Yiter S z j k \<subseteq> Yiter S z j (Suc k)"
proof (induction k)
  case 0
  show ?case by (simp add: Yiter_0)
next
  case (Suc k)
  then show ?case by (simp only: Yiter_Suc) (rule Ystep_mono, simp_all)
qed

lemma Yiter_card:
  fixes z :: "('i::finite, 'o::finite, 'm::finite) bdd"
  assumes "\<forall>i<k. Yiter S z j (Suc i) \<noteq> Yiter S z j i"
  shows "k \<le> card (Yiter S z j k)"
  using assms
proof (induction k)
  case 0
  show ?case by simp
next
  case (Suc k)
  then have "k \<le> card (Yiter S z j k)" by simp
  moreover have "Yiter S z j k \<subset> Yiter S z j (Suc k)"
    using Yiter_chain[of S z j k] Suc.prems by blast
  then have "card (Yiter S z j k) < card (Yiter S z j (Suc k))"
    by (simp add: psubset_card_mono)
  ultimately show ?case by simp
qed

lemma Yiter_stable_ex:
  fixes z :: "('i::finite, 'o::finite, 'm::finite) bdd"
  shows "\<exists>k. Yiter S z j (Suc k) = Yiter S z j k"
proof (rule ccontr)
  assume "\<not> ?thesis"
  then have "\<forall>i < Suc (card (UNIV :: ('i, 'o, 'm) valuation set)).
      Yiter S z j (Suc i) \<noteq> Yiter S z j i" by simp
  from Yiter_card[OF this]
  have "Suc (card (UNIV :: ('i, 'o, 'm) valuation set))
      \<le> card (Yiter S z j (Suc (card (UNIV :: ('i, 'o, 'm) valuation set))))" .
  moreover have "card (Yiter S z j (Suc (card (UNIV :: ('i, 'o, 'm) valuation set))))
      \<le> card (UNIV :: ('i, 'o, 'm) valuation set)"
    by (rule card_mono) simp_all
  ultimately show False by simp
qed

lemma Ycount_stable:
  fixes z :: "('i::finite, 'o::finite, 'm::finite) bdd"
  shows "Yiter S z j (Suc (Ycount S z j)) = Yiter S z j (Ycount S z j)"
  unfolding Ycount_def using Yiter_stable_ex[of S z j] by (rule LeastI_ex)

lemma Ycount_least: "k < Ycount S z j \<Longrightarrow> Yiter S z j (Suc k) \<noteq> Yiter S z j k"
  unfolding Ycount_def by (rule not_less_Least)

lemma Ycount_le: "Yiter S z j (Suc k) = Yiter S z j k \<Longrightarrow> Ycount S z j \<le> k"
  unfolding Ycount_def by (rule Least_le)

lemma Yfix_fix:
  fixes z :: "('i::finite, 'o::finite, 'm::finite) bdd"
  shows "Ystep S z j (Yfix S z j) = Yfix S z j"
  using Ycount_stable[of S z j] by (simp add: Yfix_def Yiter_Suc)

lemma Yiter_after:
  fixes z :: "('i::finite, 'o::finite, 'm::finite) bdd"
  shows "Yiter S z j (Ycount S z j + d) = Yfix S z j"
proof (induction d)
  case 0
  show ?case by (simp add: Yfix_def)
next
  case (Suc d)
  have "Yiter S z j (Ycount S z j + Suc d) = Ystep S z j (Yiter S z j (Ycount S z j + d))"
    by (simp add: Yiter_Suc)
  then show ?case using Suc Yfix_fix[of S z j] by simp
qed

lemma Yiter_stable_Yfix:
  fixes z :: "('i::finite, 'o::finite, 'm::finite) bdd"
  assumes "Yiter S z j (Suc k) = Yiter S z j k"
  shows "Yiter S z j k = Yfix S z j"
proof -
  from Ycount_le[OF assms] obtain d where "k = Ycount S z j + d"
    using le_Suc_ex by blast
  then show ?thesis by (simp add: Yiter_after)
qed

lemma Yfix_subset: "Yfix S z j \<subseteq> z"
  by (simp add: Yfix_def Yiter_subset)

lemma Yfix_least:
  assumes "Ystep S z j q \<subseteq> q"
  shows "Yfix S z j \<subseteq> q"
proof -
  have "Yiter S z j k \<subseteq> q" for k
  proof (induction k)
    case 0
    show ?case by (simp add: Yiter_0)
  next
    case (Suc k)
    have "Ystep S z j (Yiter S z j k) \<subseteq> Ystep S z j q"
      using Suc by (intro Ystep_mono) simp_all
    with assms show ?case unfolding Yiter_Suc by blast
  qed
  then show ?thesis by (simp add: Yfix_def)
qed

lemma Yfix_mono:
  fixes z :: "('i::finite, 'o::finite, 'm::finite) bdd"
  assumes "z \<subseteq> z'"
  shows "Yfix S z j \<subseteq> Yfix S z' j"
proof (rule Yfix_least)
  have "Ystep S z j (Yfix S z' j) \<subseteq> Ystep S z' j (Yfix S z' j)"
    using assms by (intro Ystep_mono) simp_all
  then show "Ystep S z j (Yfix S z' j) \<subseteq> Yfix S z' j" by (simp add: Yfix_fix)
qed

section \<open>The loop on y\<close>

lemma y_loop_run:
  fixes z :: "('i::finite, 'o::finite, 'm::finite) bdd"
  assumes "z_inv S z" "r \<le> Ycount S z j" "y = Yiter S z j r" "y \<noteq> old_y"
    "xj = map (x_row S z j) [0..<r]" "yj = map (y_row S z j) [0..<r]"
  shows "y_loop S z j r old_y y xj yj =
           Some (Suc (Ycount S z j), Yfix S z j,
                 map (x_row S z j) [0..<Suc (Ycount S z j)],
                 map (y_row S z j) [0..<Suc (Ycount S z j)])"
  using assms(2-)
proof (induction "Ycount S z j - r" arbitrary: r old_y y xj yj rule: less_induct)
  case less
  let ?y' = "Yiter S z j (Suc r)"
  have ysub: "y \<subseteq> z" using less.prems(2) by (simp add: Yiter_subset)
  have il: "i_loop S z (y_start S z j y) [0..<length (spec_assumptions S)] {} [] =
      Some (?y', snd (x_row S z j r))"
    using i_loop_Ystep[OF assms(1) ysub, of j] less.prems(2)
    by (simp add: Yiter_Suc x_row_def)
  have xj': "AList.update r (snd (x_row S z j r)) xj = map (x_row S z j) [0..<Suc r]"
    unfolding less.prems(4) by (rule update_row_append) (simp add: x_row_def)
  have yj': "AList.update r ?y' yj = map (y_row S z j) [0..<Suc r]"
    using update_row_append[of "y_row S z j" r] unfolding less.prems(5)
    by (simp add: y_row_def)
  have unfold: "y_loop S z j r old_y y xj yj =
      y_loop S z j (Suc r) y ?y' (map (x_row S z j) [0..<Suc r]) (map (y_row S z j) [0..<Suc r])"
    using less.prems(3) il xj' yj'
    by (subst y_loop.simps) (simp add: y_start_def[symmetric] Let_def)
  show ?case
  proof (cases "?y' = y")
    case True
    then have "Yiter S z j (Suc r) = Yiter S z j r" using less.prems(2) by simp
    from Ycount_le[OF this] less.prems(1) have r: "r = Ycount S z j" by simp
    have "y_loop S z j (Suc r) y ?y' (map (x_row S z j) [0..<Suc r]) (map (y_row S z j) [0..<Suc r])
        = Some (Suc r, ?y', map (x_row S z j) [0..<Suc r], map (y_row S z j) [0..<Suc r])"
      using True by (subst y_loop.simps) simp
    moreover have "?y' = Yfix S z j"
      using Ycount_stable[of S z j] by (simp add: r Yfix_def)
    ultimately show ?thesis using unfold r by simp
  next
    case False
    then have "Yiter S z j (Suc r) \<noteq> Yiter S z j r" using less.prems(2) by simp
    with Ycount_stable[of S z j] have "r \<noteq> Ycount S z j" by auto
    with less.prems(1) have lt: "Suc r \<le> Ycount S z j" by simp
    then have d: "Ycount S z j - Suc r < Ycount S z j - r" by simp
    from less.hyps[OF d lt refl False refl refl] unfold show ?thesis by simp
  qed
qed

lemma y_loop_code:
  fixes z :: "('i::finite, 'o::finite, 'm::finite) bdd"
  assumes "z_inv S z"
  shows "y_loop S z j 0 UNIV {} [] [] =
           Some (Suc (Ycount S z j), Yfix S z j,
                 map (x_row S z j) [0..<Suc (Ycount S z j)],
                 map (y_row S z j) [0..<Suc (Ycount S z j)])"
  by (rule y_loop_run[OF assms]) (simp_all add: Yiter_0)

lemma Ystep_no_assumptions: "spec_assumptions S = [] \<Longrightarrow> Ystep S z j y = {}"
  by (simp add: Ystep_def)

lemma Yfix_no_assumptions: "spec_assumptions S = [] \<Longrightarrow> Yfix S z j = {}"
  by (cases "Ycount S z j") (simp_all add: Yfix_def Yiter_0 Yiter_Suc Ystep_no_assumptions)

lemma z_inv_Yfix:
  fixes z :: "('i::finite, 'o::finite, 'm::finite) bdd"
  assumes "z_inv S z"
  shows "z_inv S (Yfix S z j)"
proof (cases "spec_assumptions S = []")
  case True
  then show ?thesis by (simp add: z_inv_def Yfix_no_assumptions)
next
  case False
  with assms have c: "coax S z \<subseteq> z" by (simp add: z_inv_def)
  let ?Y = "Yfix S z j"
  have "coax S ?Y \<subseteq> coax S z" by (rule coax_mono) (rule Yfix_subset)
  with c have sz: "y_start S z j ?Y \<subseteq> z" unfolding y_start_def by blast
  from False have "0 \<in> {0..<length (spec_assumptions S)}" by simp
  then have "Xfix S z (y_start S z j ?Y) (spec_assumptions S ! 0) \<subseteq> Ystep S z j ?Y"
    unfolding Ystep_def by blast
  with Xfix_start[OF sz] have "y_start S z j ?Y \<subseteq> Ystep S z j ?Y" by blast
  then have "coax S ?Y \<subseteq> ?Y" unfolding Yfix_fix y_start_def by blast
  then show ?thesis by (simp add: z_inv_def)
qed

section \<open>One pass over the guarantees\<close>

lemma Zround_Nil: "Zround S [] z = z"
  by (simp add: Zround_def)

lemma Zround_Cons: "Zround S (j # js) z = Zround S js (Yfix S z j)"
  by (simp add: Zround_def)

lemma Zround_subset: "Zround S js z \<subseteq> z"
proof (induction js arbitrary: z)
  case Nil
  show ?case by (simp add: Zround_Nil)
next
  case (Cons j js)
  from Cons[of "Yfix S z j"] Yfix_subset[of S z j] show ?case
    unfolding Zround_Cons by blast
qed

lemma Zround_fixed:
  assumes "Zround S js z = z" "j \<in> set js"
  shows "Yfix S z j = z"
  using assms
proof (induction js)
  case Nil
  then show ?case by simp
next
  case (Cons k js)
  have "Zround S js (Yfix S z k) \<subseteq> Yfix S z k" by (rule Zround_subset)
  with Cons.prems(1) Yfix_subset[of S z k] have k: "Yfix S z k = z"
    unfolding Zround_Cons by blast
  with Cons show ?case by (auto simp: Zround_Cons)
qed

lemma j_loop_code:
  fixes z :: "('i::finite, 'o::finite, 'm::finite) bdd"
  assumes "z_inv S z" "distinct js"
  shows "\<exists>xA' yA'. j_loop S js z xA yA = Some (Inr (Zround S js z, xA', yA')) \<and>
           (\<forall>j. j \<notin> set js \<longrightarrow> map_of xA' j = map_of xA j \<and> map_of yA' j = map_of yA j) \<and>
           (\<forall>j \<in> set js. \<exists>zj. Zround S js z \<subseteq> zj \<and> zj \<subseteq> z \<and>
               map_of xA' j = Some (x_rows S zj j) \<and> map_of yA' j = Some (y_rows S zj j))"
  using assms
proof (induction js arbitrary: z xA yA)
  case Nil
  show ?case by (simp add: Zround_Nil)
next
  case (Cons j js)
  let ?z1 = "Yfix S z j"
  let ?xA1 = "AList.update j (x_rows S z j) xA"
  let ?yA1 = "AList.update j (y_rows S z j) yA"
  have px: "dict_pop (Suc (Ycount S z j) - 1) (map (x_row S z j) [0..<Suc (Ycount S z j)])
      = Inr (x_rows S z j)"
    using dict_pop_last[of "x_row S z j" "Ycount S z j"] by (simp add: x_rows_def x_row_def)
  have py: "dict_pop (Suc (Ycount S z j) - 1) (map (y_row S z j) [0..<Suc (Ycount S z j)])
      = Inr (y_rows S z j)"
    using dict_pop_last[of "y_row S z j" "Ycount S z j"] by (simp add: y_rows_def y_row_def)
  have unfold: "j_loop S (j # js) z xA yA = j_loop S js ?z1 ?xA1 ?yA1"
    using y_loop_code[OF Cons.prems(1), of j] px py by simp
  from Cons.prems have inv1: "z_inv S ?z1" and d: "distinct js" and jn: "j \<notin> set js"
    by (simp_all add: z_inv_Yfix)
  from Cons.IH[OF inv1 d, of ?xA1 ?yA1] obtain xA' yA' where
    run: "j_loop S js ?z1 ?xA1 ?yA1 = Some (Inr (Zround S js ?z1, xA', yA'))" and
    keep: "\<forall>k. k \<notin> set js \<longrightarrow> map_of xA' k = map_of ?xA1 k \<and> map_of yA' k = map_of ?yA1 k" and
    rows: "\<forall>k \<in> set js. \<exists>zj. Zround S js ?z1 \<subseteq> zj \<and> zj \<subseteq> ?z1 \<and>
               map_of xA' k = Some (x_rows S zj k) \<and> map_of yA' k = Some (y_rows S zj k)"
    by blast
  have 1: "j_loop S (j # js) z xA yA = Some (Inr (Zround S (j # js) z, xA', yA'))"
    using unfold run by (simp add: Zround_Cons)
  have 2: "\<forall>k. k \<notin> set (j # js) \<longrightarrow> map_of xA' k = map_of xA k \<and> map_of yA' k = map_of yA k"
    using keep by (simp add: update_conv')
  have 3: "\<forall>k \<in> set (j # js). \<exists>zj. Zround S (j # js) z \<subseteq> zj \<and> zj \<subseteq> z \<and>
               map_of xA' k = Some (x_rows S zj k) \<and> map_of yA' k = Some (y_rows S zj k)"
  proof
    fix k assume "k \<in> set (j # js)"
    then consider "k = j" | "k \<in> set js" by auto
    then show "\<exists>zj. Zround S (j # js) z \<subseteq> zj \<and> zj \<subseteq> z \<and>
               map_of xA' k = Some (x_rows S zj k) \<and> map_of yA' k = Some (y_rows S zj k)"
    proof cases
      case 1
      with keep jn have "map_of xA' k = Some (x_rows S z k)" "map_of yA' k = Some (y_rows S z k)"
        by (simp_all add: update_conv')
      moreover have "Zround S (j # js) z \<subseteq> z" by (rule Zround_subset)
      ultimately show ?thesis by blast
    next
      case 2
      with rows obtain zj where "Zround S js ?z1 \<subseteq> zj" "zj \<subseteq> ?z1"
        "map_of xA' k = Some (x_rows S zj k)" "map_of yA' k = Some (y_rows S zj k)" by blast
      moreover have "?z1 \<subseteq> z" by (rule Yfix_subset)
      ultimately show ?thesis by (auto simp: Zround_Cons)
    qed
  qed
  from 1 2 3 show ?case by blast
qed

section \<open>The outermost loop\<close>

lemma Wfix_greatest:
  "(\<And>j. j < length (spec_guarantees S) \<Longrightarrow> W \<subseteq> Yfix S W j) \<Longrightarrow> W \<subseteq> Wfix S"
  unfolding Wfix_def by blast

lemma Wfix_post:
  fixes S :: "('i::finite, 'o::finite, 'm::finite) Specification"
  assumes "j < length (spec_guarantees S)"
  shows "Wfix S \<subseteq> Yfix S (Wfix S) j"
proof
  fix v assume "v \<in> Wfix S"
  then obtain W where W: "\<forall>j < length (spec_guarantees S). W \<subseteq> Yfix S W j" "v \<in> W"
    unfolding Wfix_def by blast
  then have "W \<subseteq> Wfix S" by (intro Wfix_greatest) simp
  then have "Yfix S W j \<subseteq> Yfix S (Wfix S) j" by (rule Yfix_mono)
  with W assms show "v \<in> Yfix S (Wfix S) j" by blast
qed

lemma Wfix_Zround:
  fixes S :: "('i::finite, 'o::finite, 'm::finite) Specification"
  assumes "Wfix S \<subseteq> z" "\<forall>j \<in> set js. j < length (spec_guarantees S)"
  shows "Wfix S \<subseteq> Zround S js z"
  using assms
proof (induction js arbitrary: z)
  case Nil
  then show ?case by (simp add: Zround_Nil)
next
  case (Cons j js)
  have "Wfix S \<subseteq> Yfix S (Wfix S) j" using Cons.prems(2) by (intro Wfix_post) simp
  also have "\<dots> \<subseteq> Yfix S z j" using Cons.prems(1) by (rule Yfix_mono)
  finally have "Wfix S \<subseteq> Yfix S z j" .
  from Cons.IH[OF this] Cons.prems(2) show ?case by (simp add: Zround_Cons)
qed

lemma z_inv_Zround:
  fixes z :: "('i::finite, 'o::finite, 'm::finite) bdd"
  shows "z_inv S z \<Longrightarrow> z_inv S (Zround S js z)"
  by (induction js arbitrary: z) (simp_all add: Zround_Nil Zround_Cons z_inv_Yfix)

lemma z_loop_code:
  fixes z :: "('i::finite, 'o::finite, 'm::finite) bdd"
  assumes "z_inv S z" "Wfix S \<subseteq> z" "z \<noteq> old_z"
  shows "\<exists>xA' yA'. z_loop S old_z z xA yA = Some (Inr (Wfix S, xA', yA')) \<and> z_inv S (Wfix S) \<and>
           (\<forall>j < length (spec_guarantees S).
               map_of xA' j = Some (x_rows S (Wfix S) j) \<and>
               map_of yA' j = Some (y_rows S (Wfix S) j)) \<and>
           (\<forall>j. length (spec_guarantees S) \<le> j \<longrightarrow>
               map_of xA' j = map_of xA j \<and> map_of yA' j = map_of yA j)"
  using assms
proof (induction "card z" arbitrary: z old_z xA yA rule: less_induct)
  case less
  let ?n = "length (spec_guarantees S)"
  let ?z' = "Zround S [0..<?n] z"
  from j_loop_code[OF less.prems(1), of "[0..<?n]" xA yA] obtain xA1 yA1 where
    run: "j_loop S [0..<?n] z xA yA = Some (Inr (?z', xA1, yA1))" and
    keep: "\<forall>j. j \<notin> set [0..<?n] \<longrightarrow> map_of xA1 j = map_of xA j \<and> map_of yA1 j = map_of yA j" and
    rows: "\<forall>j \<in> set [0..<?n]. \<exists>zj. ?z' \<subseteq> zj \<and> zj \<subseteq> z \<and>
               map_of xA1 j = Some (x_rows S zj j) \<and> map_of yA1 j = Some (y_rows S zj j)"
    by auto
  have unfold: "z_loop S old_z z xA yA = z_loop S z ?z' xA1 yA1"
    using less.prems(3) run by (subst z_loop.simps) simp
  have sub: "?z' \<subseteq> z" by (rule Zround_subset)
  have low: "Wfix S \<subseteq> ?z'" using less.prems(2) by (intro Wfix_Zround) simp_all
  show ?case
  proof (cases "?z' = z")
    case True
    have stop: "z_loop S z ?z' xA1 yA1 = Some (Inr (?z', xA1, yA1))"
      using True by (subst z_loop.simps) simp
    have "z \<subseteq> Wfix S"
    proof (rule Wfix_greatest)
      fix j assume "j < ?n"
      then have "Yfix S z j = z" using True by (intro Zround_fixed[of S "[0..<?n]"]) simp_all
      then show "z \<subseteq> Yfix S z j" by simp
    qed
    with less.prems(2) have zW: "z = Wfix S" by blast
    have "\<forall>j < ?n. map_of xA1 j = Some (x_rows S (Wfix S) j) \<and>
               map_of yA1 j = Some (y_rows S (Wfix S) j)"
    proof (intro allI impI)
      fix j assume "j < ?n"
      then have "j \<in> set [0..<?n]" by simp
      with rows obtain zj where "?z' \<subseteq> zj" "zj \<subseteq> z"
        "map_of xA1 j = Some (x_rows S zj j)" "map_of yA1 j = Some (y_rows S zj j)" by blast
      moreover from this True have "zj = z" by blast
      ultimately show "map_of xA1 j = Some (x_rows S (Wfix S) j) \<and>
               map_of yA1 j = Some (y_rows S (Wfix S) j)" using zW by simp
    qed
    moreover have "\<forall>j. ?n \<le> j \<longrightarrow> map_of xA1 j = map_of xA j \<and> map_of yA1 j = map_of yA j"
      using keep by simp
    moreover have "z_inv S (Wfix S)" using less.prems(1) zW by simp
    ultimately show ?thesis using unfold stop True zW by auto
  next
    case False
    with sub have "?z' \<subset> z" by blast
    then have c: "card ?z' < card z" by (simp add: psubset_card_mono)
    have inv: "z_inv S ?z'" using less.prems(1) by (rule z_inv_Zround)
    from less.hyps[OF c inv low False, of xA1 yA1] obtain xA' yA' where
      "z_loop S z ?z' xA1 yA1 = Some (Inr (Wfix S, xA', yA'))" "z_inv S (Wfix S)"
      "\<forall>j < ?n. map_of xA' j = Some (x_rows S (Wfix S) j) \<and>
               map_of yA' j = Some (y_rows S (Wfix S) j)"
      "\<forall>j. ?n \<le> j \<longrightarrow> map_of xA' j = map_of xA1 j \<and> map_of yA' j = map_of yA1 j"
      by blast
    with unfold keep show ?thesis by auto
  qed
qed

lemma z_inv_UNIV: "z_inv S UNIV"
  by (simp add: z_inv_def)

lemma calcWinningRegion_code:
  fixes S :: "('i::finite, 'o::finite, 'm::finite) Specification"
  shows "\<exists>w. calcWinningRegion marduk S = Some (Inr w) \<and> winningRegion w = Wfix S \<and>
           z_inv S (Wfix S) \<and>
           (\<forall>j < length (spec_guarantees S).
               map_of (xArray w) j = Some (x_rows S (Wfix S) j) \<and>
               map_of (yArray w) j = Some (y_rows S (Wfix S) j)) \<and>
           (\<forall>j. length (spec_guarantees S) \<le> j \<longrightarrow>
               map_of (xArray w) j = None \<and> map_of (yArray w) j = None) \<and>
           guarantees w = spec_guarantees S \<and> assumptions w = spec_assumptions S \<and>
           transition1 w = spec_trans1 S \<and> transition2 w = spec_trans2 S \<and>
           transition12 w = get_trans12 S \<and> init1 w = spec_init1 S \<and>
           init2 w = spec_init2 S \<and> init12 w = get_init12 S"
proof -
  have "(UNIV :: ('i, 'o, 'm) bdd) \<noteq> {}" by simp
  from z_loop_code[OF z_inv_UNIV _ this, of S "[]" "[]"] obtain xA' yA' where
    "z_loop S {} UNIV [] [] = Some (Inr (Wfix S, xA', yA'))" "z_inv S (Wfix S)"
    "\<forall>j < length (spec_guarantees S).
               map_of xA' j = Some (x_rows S (Wfix S) j) \<and>
               map_of yA' j = Some (y_rows S (Wfix S) j)"
    "\<forall>j. length (spec_guarantees S) \<le> j \<longrightarrow> map_of xA' j = None \<and> map_of yA' j = None"
    by auto
  then show ?thesis by (simp add: calcWinningRegion_def Let_def)
qed

lemma Yfix_Wfix:
  fixes S :: "('i::finite, 'o::finite, 'm::finite) Specification"
  assumes "j < length (spec_guarantees S)"
  shows "Yfix S (Wfix S) j = Wfix S"
  using Wfix_post[OF assms] Yfix_subset[of S "Wfix S" j] by blast

lemma Wfix_no_guarantees: "spec_guarantees S = [] \<Longrightarrow> Wfix S = UNIV"
  by (simp add: Wfix_def)

lemma Ycount_no_assumptions: "spec_assumptions S = [] \<Longrightarrow> Ycount S z j = 0"
  using Ycount_le[of S z j 0] by (simp add: Yiter_0 Yiter_Suc Ystep_no_assumptions)

section \<open>Loops that repeat until nothing changes\<close>

lemma repeat_until_unchanged_dec:
  fixes x :: "'a::finite set"
  assumes "P x" "\<And>x. P x \<Longrightarrow> body x = Some (f x) \<and> f x \<subseteq> x \<and> P (f x)"
  shows "\<exists>r. repeat_until_unchanged body x = Some r \<and> P r \<and> f r = r"
  using assms(1)
proof (induction "card x" arbitrary: x rule: less_induct)
  case less
  from assms(2)[OF less.prems] have b: "body x = Some (f x)" "f x \<subseteq> x" "P (f x)" by simp_all
  show ?case
  proof (cases "f x = x")
    case True
    with b(1) have "repeat_until_unchanged body x = Some x"
      by (subst repeat_until_unchanged.simps) simp
    with True less.prems show ?thesis by simp
  next
    case False
    with b(2) have "card (f x) < card x" by (simp add: psubset_card_mono psubsetI)
    from less.hyps[OF this b(3)] obtain r where
      "repeat_until_unchanged body (f x) = Some r" "P r" "f r = r" by blast
    moreover have "repeat_until_unchanged body x = repeat_until_unchanged body (f x)"
      using b(1) False by (subst repeat_until_unchanged.simps) simp
    ultimately show ?thesis by simp
  qed
qed

lemma repeat_until_unchanged_inc:
  fixes x :: "'a::finite set"
  assumes "P x" "\<And>x. P x \<Longrightarrow> body x = Some (f x) \<and> x \<subseteq> f x \<and> P (f x)"
  shows "\<exists>r. repeat_until_unchanged body x = Some r \<and> P r \<and> f r = r"
  using assms(1)
proof (induction "card (- x)" arbitrary: x rule: less_induct)
  case less
  from assms(2)[OF less.prems] have b: "body x = Some (f x)" "x \<subseteq> f x" "P (f x)" by simp_all
  show ?case
  proof (cases "f x = x")
    case True
    with b(1) have "repeat_until_unchanged body x = Some x"
      by (subst repeat_until_unchanged.simps) simp
    with True less.prems show ?thesis by simp
  next
    case False
    with b(2) have "- f x \<subset> - x" by blast
    then have "card (- f x) < card (- x)" by (simp add: psubset_card_mono)
    from less.hyps[OF this b(3)] obtain r where
      "repeat_until_unchanged body (f x) = Some r" "P r" "f r = r" by blast
    moreover have "repeat_until_unchanged body x = repeat_until_unchanged body (f x)"
      using b(1) False by (subst repeat_until_unchanged.simps) simp
    ultimately show ?thesis by simp
  qed
qed

section \<open>The specification's loops compute the same fixpoints\<close>

lemma spec_X_Xfix:
  fixes z :: "('i::finite, 'o::finite, 'm::finite) bdd"
  assumes "x_step S start (spec_assumptions S ! i) z \<subseteq> z"
  shows "spec_X S z start i = Some (Xfix S z start (spec_assumptions S ! i))"
proof -
  let ?a = "spec_assumptions S ! i"
  let ?P = "\<lambda>x. x_step S start ?a x \<subseteq> x \<and> Xfix S x start ?a = Xfix S z start ?a"
  have "\<exists>r. repeat_until_unchanged (\<lambda>X. Some (x_step S start ?a X)) z = Some r \<and> ?P r \<and>
          x_step S start ?a r = r"
  proof (rule repeat_until_unchanged_dec[where P = ?P])
    show "?P z" using assms by simp
  next
    fix x assume P: "?P x"
    then have "x_step S start ?a (x_step S start ?a x) \<subseteq> x_step S start ?a x"
      by (intro x_step_mono) simp_all
    moreover have "Xfix S (x_step S start ?a x) start ?a = Xfix S z start ?a"
      using P Xfix_step_eq[of S start ?a x] by simp
    ultimately show "Some (x_step S start ?a x) = Some (x_step S start ?a x) \<and>
        x_step S start ?a x \<subseteq> x \<and> ?P (x_step S start ?a x)"
      using P by simp
  qed
  then obtain r where r: "repeat_until_unchanged (\<lambda>X. Some (x_step S start ?a X)) z = Some r"
    "Xfix S r start ?a = Xfix S z start ?a" "x_step S start ?a r = r" by blast
  have "r \<subseteq> Xfix S r start ?a" using r(3) by (intro Xfix_greatest) simp_all
  with Xfix_subset[of S r start ?a] r(2) have "r = Xfix S z start ?a" by blast
  with r(1) show ?thesis by (simp add: spec_X_def x_step_def)
qed

lemma spec_for_i_code:
  fixes z :: "('i::finite, 'o::finite, 'm::finite) bdd"
  assumes "\<forall>i \<in> set is. x_step S start (spec_assumptions S ! i) z \<subseteq> z"
  shows "spec_for_i S z start is y =
           Some (y \<union> (\<Union>i \<in> set is. Xfix S z start (spec_assumptions S ! i)))"
  using assms
proof (induction "is" arbitrary: y)
  case Nil
  show ?case by simp
next
  case (Cons i "is")
  then show ?case by (simp add: spec_X_Xfix Un_assoc)
qed

lemma spec_Y_round_Ystep:
  fixes z :: "('i::finite, 'o::finite, 'm::finite) bdd"
  assumes "z_inv S z" "y \<subseteq> z"
  shows "spec_Y_round S z j y = Some (Ystep S z j y)"
proof -
  have "\<forall>i \<in> set [0..<length (spec_assumptions S)].
           x_step S (y_start S z j y) (spec_assumptions S ! i) z \<subseteq> z"
    using z_inv_x_step[OF assms] by auto
  from spec_for_i_code[OF this, of "{}"]
  show ?thesis by (simp add: spec_Y_round_def Let_def Ystep_def y_start_def)
qed

lemma spec_Y_Yfix:
  fixes z :: "('i::finite, 'o::finite, 'm::finite) bdd"
  assumes "z_inv S z"
  shows "spec_Y S z j = Some (Yfix S z j)"
proof -
  let ?P = "\<lambda>y. \<exists>k. y = Yiter S z j k"
  have "\<exists>r. repeat_until_unchanged (spec_Y_round S z j) {} = Some r \<and> ?P r \<and>
          Ystep S z j r = r"
  proof (rule repeat_until_unchanged_inc[where P = ?P])
    show "?P {}" using Yiter_0[of S z j] by metis
  next
    fix y assume "?P y"
    then obtain k where k: "y = Yiter S z j k" by blast
    then have "y \<subseteq> z" by (simp add: Yiter_subset)
    from spec_Y_round_Ystep[OF assms this] k Yiter_chain[of S z j k]
    show "spec_Y_round S z j y = Some (Ystep S z j y) \<and> y \<subseteq> Ystep S z j y \<and>
        ?P (Ystep S z j y)"
      using Yiter_Suc[of S z j k] by metis
  qed
  then obtain r k where r: "repeat_until_unchanged (spec_Y_round S z j) {} = Some r"
    "r = Yiter S z j k" "Ystep S z j r = r" by blast
  from r(2,3) have "Yiter S z j (Suc k) = Yiter S z j k" by (simp add: Yiter_Suc)
  from Yiter_stable_Yfix[OF this] r show ?thesis by (simp add: spec_Y_def)
qed

lemma spec_for_j_Zround:
  fixes z :: "('i::finite, 'o::finite, 'm::finite) bdd"
  assumes "z_inv S z"
  shows "spec_for_j S js z = Some (Zround S js z)"
  using assms
proof (induction js arbitrary: z)
  case Nil
  show ?case by (simp add: Zround_Nil)
next
  case (Cons j js)
  from Cons.IH[OF z_inv_Yfix[OF Cons.prems]] Cons.prems
  show ?case by (simp add: spec_Y_Yfix Zround_Cons)
qed

lemma common_fixpoint_Wfix:
  fixes z :: "('i::finite, 'o::finite, 'm::finite) bdd"
  assumes "Wfix S \<subseteq> z" "\<And>j. j < length (spec_guarantees S) \<Longrightarrow> z \<subseteq> Yfix S z j"
  shows "z = Wfix S"
  using assms(1) Wfix_greatest[of S z, OF assms(2)] by blast

lemma spec_solve_Wfix:
  fixes S :: "('i::finite, 'o::finite, 'm::finite) Specification"
  shows "spec_solve S = Some (Wfix S)"
proof -
  let ?n = "length (spec_guarantees S)"
  let ?P = "\<lambda>z. z_inv S z \<and> Wfix S \<subseteq> z"
  have "\<exists>r. repeat_until_unchanged (\<lambda>Z. spec_for_j S [0..<?n] Z) UNIV = Some r \<and> ?P r \<and>
          Zround S [0..<?n] r = r"
  proof (rule repeat_until_unchanged_dec[where P = ?P])
    show "?P UNIV" by (simp add: z_inv_UNIV)
  next
    fix z assume "?P z"
    then show "spec_for_j S [0..<?n] z = Some (Zround S [0..<?n] z) \<and>
        Zround S [0..<?n] z \<subseteq> z \<and> ?P (Zround S [0..<?n] z)"
      by (simp add: spec_for_j_Zround Zround_subset z_inv_Zround Wfix_Zround)
  qed
  then obtain r where r: "repeat_until_unchanged (\<lambda>Z. spec_for_j S [0..<?n] Z) UNIV = Some r"
    "Wfix S \<subseteq> r" "Zround S [0..<?n] r = r" by blast
  have "r = Wfix S"
  proof (rule common_fixpoint_Wfix[OF r(2)])
    fix j assume "j < ?n"
    then have "Yfix S r j = r" using r(3) by (intro Zround_fixed[of S "[0..<?n]"]) simp_all
    then show "r \<subseteq> Yfix S r j" by simp
  qed
  with r(1) show ?thesis by (simp add: spec_solve_def)
qed

section \<open>The textbook iteration reaches the same set\<close>

lemma textbook_for_j_code:
  fixes z :: "('i::finite, 'o::finite, 'm::finite) bdd"
  assumes "z_inv S z"
  shows "textbook_for_j S z js acc = Some (acc \<inter> (\<Inter>j \<in> set js. Yfix S z j))"
  by (induction js arbitrary: acc) (simp_all add: spec_Y_Yfix[OF assms] Int_assoc)

lemma z_inv_Inter:
  fixes z :: "('i::finite, 'o::finite, 'm::finite) bdd"
  assumes "z_inv S z"
  shows "z_inv S (\<Inter>j \<in> {0..<n}. Yfix S z j)"
proof (cases "n = 0")
  case True
  then show ?thesis by (simp add: z_inv_UNIV)
next
  case n: False
  show ?thesis
  proof (cases "spec_assumptions S = []")
    case True
    with n have "(\<Inter>j \<in> {0..<n}. Yfix S z j) = {}"
      by (auto simp: Yfix_no_assumptions)
    with True show ?thesis by (simp add: z_inv_def)
  next
    case False
    have "coax S (\<Inter>j \<in> {0..<n}. Yfix S z j) \<subseteq> Yfix S z j" if "j < n" for j
    proof -
      from z_inv_Yfix[OF assms, of j] False have "coax S (Yfix S z j) \<subseteq> Yfix S z j"
        by (simp add: z_inv_def)
      moreover have "coax S (\<Inter>j \<in> {0..<n}. Yfix S z j) \<subseteq> coax S (Yfix S z j)"
        using that by (intro coax_mono) auto
      ultimately show ?thesis by blast
    qed
    then have "coax S (\<Inter>j \<in> {0..<n}. Yfix S z j) \<subseteq> (\<Inter>j \<in> {0..<n}. Yfix S z j)"
      by (intro INT_greatest) simp
    then show ?thesis by (simp add: z_inv_def)
  qed
qed

lemma textbook_solve_Wfix:
  fixes S :: "('i::finite, 'o::finite, 'm::finite) Specification"
  shows "textbook_solve S = Some (Wfix S)"
proof -
  let ?n = "length (spec_guarantees S)"
  let ?J = "\<lambda>z. \<Inter>j \<in> {0..<?n}. Yfix S z j"
  let ?P = "\<lambda>z. z_inv S z \<and> Wfix S \<subseteq> z \<and> (?n = 0 \<longrightarrow> z = UNIV)"
  have "\<exists>r. repeat_until_unchanged (\<lambda>Z. textbook_for_j S Z [0..<?n] UNIV) UNIV = Some r \<and>
          ?P r \<and> ?J r = r"
  proof (rule repeat_until_unchanged_dec[where P = ?P])
    show "?P UNIV" by (simp add: z_inv_UNIV)
  next
    fix z assume P: "?P z"
    have 1: "textbook_for_j S z [0..<?n] UNIV = Some (?J z)"
      using P by (simp add: textbook_for_j_code)
    have 2: "?J z \<subseteq> z"
    proof (cases "?n = 0")
      case True
      with P show ?thesis by simp
    next
      case False
      then have "?J z \<subseteq> Yfix S z 0" by auto
      with Yfix_subset[of S z 0] show ?thesis by blast
    qed
    have 3: "Wfix S \<subseteq> ?J z"
    proof -
      have "Wfix S \<subseteq> Yfix S z j" if "j < ?n" for j
        using Wfix_post[OF that] Yfix_mono[of "Wfix S" z S j] P by blast
      then show ?thesis by (intro INT_greatest) simp
    qed
    have 4: "?n = 0 \<longrightarrow> ?J z = UNIV" by simp
    from 1 2 3 4 z_inv_Inter[of S z ?n] P
    show "textbook_for_j S z [0..<?n] UNIV = Some (?J z) \<and> ?J z \<subseteq> z \<and> ?P (?J z)" by simp
  qed
  then obtain r where r:
    "repeat_until_unchanged (\<lambda>Z. textbook_for_j S Z [0..<?n] UNIV) UNIV = Some r"
    "Wfix S \<subseteq> r" "?J r = r" by blast
  have "r = Wfix S"
  proof (rule common_fixpoint_Wfix[OF r(2)])
    fix j assume "j < ?n"
    then have "?J r \<subseteq> Yfix S r j" by auto
    with r(3) show "r \<subseteq> Yfix S r j" by simp
  qed
  with r(1) show ?thesis by (simp add: textbook_solve_def)
qed

section \<open>Invariants of the loop heads\<close>

lemma z_inv_cases: "z_inv S z \<Longrightarrow> z = {} \<or> coax S z \<subseteq> z"
  by (auto simp: z_inv_def)

lemma reach_point_inv:
  fixes S :: "('i::finite, 'o::finite, 'm::finite) Specification"
  assumes "reach S p"
  shows "point_inv S p"
  using assms
proof (induction rule: reach.induct)
  case reach_init
  show ?case by (simp add: z_inv_UNIV)
next
  case (reach_round old_z z xA yA)
  then show ?case by simp
next
  case (reach_enter_y j js z xA yA)
  then show ?case using Yiter_0[of S z j] by (simp del: ZERO_def) (metis ZERO_def)
next
  case (reach_enter_i z j r old_y y xj yj)
  then obtain k where inv: "z_inv S z" and k: "y = Yiter S z j k" by auto
  from k have "coax S y \<subseteq> coax S z" by (intro coax_mono) (simp add: Yiter_subset)
  with z_inv_cases[OF inv] show ?case by auto
next
  case (reach_enter_x z start i "is" y xr)
  then show ?case by (auto simp: x_step_def)
next
  case (reach_x start a old_x x)
  then have "x_step S start a x \<subseteq> x" by simp
  then have "x_step S start a (x_step S start a x) \<subseteq> x_step S start a x"
    by (intro x_step_mono) simp_all
  then show ?case by (simp add: x_step_def)
next
  case (reach_i z start i "is" y xr x)
  then show ?case by simp
next
  case (reach_y z j r old_y y xj yj y' xr)
  then obtain k where inv: "z_inv S z" and k: "y = Yiter S z j k" by auto
  from k have "y \<subseteq> z" by (simp add: Yiter_subset)
  from i_loop_Ystep[OF inv this, of j] reach_y.hyps(3) k
  have "y' = Yiter S z j (Suc k)" by (simp add: y_start_def Yiter_Suc)
  with inv show ?case by auto
next
  case (reach_j j js z xA yA r y xj yj yj' xj')
  then have inv: "z_inv S z" and d: "distinct js" by simp_all
  from y_loop_code[OF inv, of j] reach_j.hyps(2) have "y = Yfix S z j" by simp
  with inv d show ?case by (simp add: z_inv_Yfix)
next
  case (reach_z old_z z xA yA z' xA' yA')
  then have inv: "z_inv S z" by simp
  from j_loop_code[OF inv, of "[0..<length (spec_guarantees S)]" xA yA] reach_z.hyps(3)
  have "z' = Zround S [0..<length (spec_guarantees S)] z" by auto
  with inv show ?case by (simp add: z_inv_Zround)
qed

section \<open>Folds with exceptions\<close>

lemma ebind_Inr [simp]: "ebind (Inr a) f = f a"
  by (simp add: ebind_def)

lemma ebind_Inl [simp]: "ebind (Inl e) f = Inl e"
  by (simp add: ebind_def)

lemma efold_append: "efold f (xs @ ys) s = ebind (efold f xs s) (efold f ys)"
  by (induction xs arbitrary: s) (auto simp: ebind_def split: sum.splits)

lemma efold_single: "efold f [k] = f k"
  by (rule ext) (simp add: ebind_def split: sum.splits)

lemma efold_upt_Suc:
  "a \<le> k \<Longrightarrow> efold f [a..<Suc k] s = ebind (efold f [a..<k] s) (f k)"
  by (simp add: efold_append efold_single)

lemma map_of_map_upt: "map_of (map (\<lambda>k. (k, f k)) [0..<n]) k = (if k < n then Some (f k) else None)"
  by (induction n) (auto simp: map_add_def less_Suc_eq split: option.splits)

lemma dict_get_map_upt:
  "k < n \<Longrightarrow> dict_get k (map (\<lambda>k. (k, f k)) [0..<n]) = Inr (f k)"
  by (simp add: dict_get_def map_of_map_upt)

section \<open>The memory cubes\<close>

lemma swapVariables_jx_cube [simp]: "swapVariables_jx (jx_cube c) = jx_ncube c"
  by (auto simp: swapVariables_jx_def jx_cube_def jx_ncube_def)

lemma swapVariables_jx_ncube [simp]: "swapVariables_jx (jx_ncube c) = jx_cube c"
  by (auto simp: swapVariables_jx_def jx_cube_def jx_ncube_def)

section \<open>Rule 1\<close>

lemma rho1_fold:
  assumes cof: "\<forall>j < n. bdd_cofactor T (jx_cube (enc j)) = jx_ncube (enc ((j + 1) mod n))"
    and k: "k \<le> n" "n \<le> length gs"
  shows "efold (rho1_j_body T gs) [0..<k] (ZERO, jx_cube (enc 0)) =
           Inr ((\<Union>j \<in> {0..<k}. jx_cube (enc j) \<inter> gs ! j \<inter> jx_ncube (enc ((j + 1) mod n))),
                jx_cube (enc (k mod n)))"
  using k(1)
proof (induction k)
  case 0
  show ?case by simp
next
  case (Suc k)
  then have kn: "k < n" and IH: "efold (rho1_j_body T gs) [0..<k] (ZERO, jx_cube (enc 0)) =
           Inr ((\<Union>j \<in> {0..<k}. jx_cube (enc j) \<inter> gs ! j \<inter> jx_ncube (enc ((j + 1) mod n))),
                jx_cube (enc (k mod n)))" by simp_all
  from kn k(2) have g: "list_get gs k = Inr (gs ! k)" by (simp add: list_get_def)
  from kn cof have c: "bdd_cofactor T (jx_cube (enc k)) = jx_ncube (enc ((k + 1) mod n))"
    by simp
  let ?F = "\<lambda>j. jx_cube (enc j) \<inter> gs ! j \<inter> jx_ncube (enc ((j + 1) mod n))"
  have "efold (rho1_j_body T gs) [0..<Suc k] (ZERO, jx_cube (enc 0)) =
      ebind (efold (rho1_j_body T gs) [0..<k] (ZERO, jx_cube (enc 0))) (rho1_j_body T gs k)"
    by (rule efold_upt_Suc) simp
  also have "\<dots> = rho1_j_body T gs k (\<Union>j \<in> {0..<k}. ?F j, jx_cube (enc (k mod n)))"
    unfolding IH by simp
  also have "\<dots> = Inr ((\<Union>j \<in> {0..<k}. ?F j) \<union> ?F k, jx_cube (enc ((k + 1) mod n)))"
    using kn g c by (simp add: rho1_j_body_def Let_def)
  also have "(\<Union>j \<in> {0..<k}. ?F j) \<union> ?F k = (\<Union>j \<in> {0..<Suc k}. ?F j)"
    by (simp add: atLeast0_lessThan_Suc Un_commute)
  finally show ?case by simp
qed

lemma calc_rho1_sem:
  assumes jx: "jx_ok w n enc" and n: "n = length (guarantees w)" "0 < n"
  shows "calc_rho1 w n =
           Inr ((\<Union>j \<in> {0..<n}. jx_cube (enc j) \<inter> guarantees w ! j
                                  \<inter> jx_ncube (enc ((j + 1) mod n)))
                \<inter> (winningRegion w \<inter> transition12 w \<inter> swapVariables_io (winningRegion w)))"
proof -
  from jx obtain T where T: "transitionjx w = Some T"
    "\<forall>j < n. bdd_cofactor T (jx_cube (enc j)) = jx_ncube (enc ((j + 1) mod n))"
    and i: "initjx w = Some (jx_cube (enc 0))"
    and v: "jx_ps_vars w \<noteq> None" "jx_ns_vars w \<noteq> None"
    by (auto simp: jx_ok_def)
  from n have g: "guarantees w \<noteq> []" by auto
  from rho1_fold[OF T(2), of n "guarantees w"] n
  have "efold (rho1_j_body T (guarantees w)) [0..<n] (ZERO, jx_cube (enc 0)) =
           Inr ((\<Union>j \<in> {0..<n}. jx_cube (enc j) \<inter> guarantees w ! j
                                  \<inter> jx_ncube (enc ((j + 1) mod n))),
                jx_cube (enc (n mod n)))" by simp
  with T(1) i v g show ?thesis
    by (auto simp: calc_rho1_def Let_def simp del: ZERO_def)
qed

section \<open>Rule 3\<close>

lemma low3_Suc_i: "low3 X m r i \<union> X r i = low3 X m r (Suc i)"
  by (auto simp: low3_def less_Suc_eq)

lemma low3_Suc_r: "low3 X m r m = low3 X m (Suc r) 0"
  by (simp add: low3_def atLeast0_lessThan_Suc Un_commute)

lemma low3_0: "low3 X m 0 0 = {}"
  by (simp add: low3_def)

lemma rho3_i_fold:
  assumes k: "k \<le> m" "m \<le> length as"
  shows "efold (rho3_i_body rst care as (map (\<lambda>i. (i, X r i)) [0..<m])) [0..<k]
             (acc, low3 X m r 0) =
           Inr (acc \<union> (\<Union>i \<in> {0..<k}. term3 rst care as X m r i), low3 X m r k)"
  using k(1)
proof (induction k)
  case 0
  show ?case by simp
next
  case (Suc k)
  let ?row = "map (\<lambda>i. (i, X r i)) [0..<m]"
  from Suc have km: "k < m" and IH: "efold (rho3_i_body rst care as ?row) [0..<k]
             (acc, low3 X m r 0) =
           Inr (acc \<union> (\<Union>i \<in> {0..<k}. term3 rst care as X m r i), low3 X m r k)"
    by simp_all
  from km k(2) have a: "list_get as k = Inr (as ! k)" by (simp add: list_get_def)
  from km have d: "dict_get k ?row = Inr (X r k)" by (rule dict_get_map_upt)
  have "efold (rho3_i_body rst care as ?row) [0..<Suc k] (acc, low3 X m r 0) =
      ebind (efold (rho3_i_body rst care as ?row) [0..<k] (acc, low3 X m r 0))
        (rho3_i_body rst care as ?row k)"
    by (rule efold_upt_Suc) simp
  also have "\<dots> = rho3_i_body rst care as ?row k
      (acc \<union> (\<Union>i \<in> {0..<k}. term3 rst care as X m r i), low3 X m r k)"
    unfolding IH by simp
  also have "\<dots> = Inr ((acc \<union> (\<Union>i \<in> {0..<k}. term3 rst care as X m r i))
                         \<union> term3 rst care as X m r k, low3 X m r k \<union> X r k)"
    unfolding rho3_i_body_def d a by (simp add: term3_def Let_def)
  also have "(acc \<union> (\<Union>i \<in> {0..<k}. term3 rst care as X m r i)) \<union> term3 rst care as X m r k
      = acc \<union> (\<Union>i \<in> {0..<Suc k}. term3 rst care as X m r i)"
    by (auto simp: less_Suc_eq)
  finally show ?case by (simp add: low3_Suc_i)
qed

lemma rho3_r_fold:
  assumes k: "k \<le> R" and m: "m \<le> length as"
  shows "efold (rho3_r_body rst care as
                  (map (\<lambda>r. (r, map (\<lambda>i. (i, X r i)) [0..<m])) [0..<R])) [0..<k] (ZERO, ZERO) =
           Inr (\<Union>r \<in> {0..<k}. \<Union>i \<in> {0..<m}. term3 rst care as X m r i, low3 X m k 0)"
  using k
proof (induction k)
  case 0
  show ?case by (simp add: low3_0)
next
  case (Suc k)
  let ?xj = "map (\<lambda>r. (r, map (\<lambda>i. (i, X r i)) [0..<m])) [0..<R]"
  let ?U = "\<lambda>k. \<Union>r \<in> {0..<k}. \<Union>i \<in> {0..<m}. term3 rst care as X m r i"
  from Suc have kR: "k < R" and IH: "efold (rho3_r_body rst care as ?xj) [0..<k] (ZERO, ZERO) =
           Inr (?U k, low3 X m k 0)"
    by simp_all
  from kR have d: "dict_get k ?xj = Inr (map (\<lambda>i. (i, X k i)) [0..<m])"
    by (rule dict_get_map_upt)
  have "efold (rho3_r_body rst care as ?xj) [0..<Suc k] (ZERO, ZERO) =
      ebind (efold (rho3_r_body rst care as ?xj) [0..<k] (ZERO, ZERO))
        (rho3_r_body rst care as ?xj k)"
    by (rule efold_upt_Suc) simp
  also have "\<dots> = rho3_r_body rst care as ?xj k (?U k, low3 X m k 0)"
    unfolding IH by simp
  also have "\<dots> = Inr (?U k \<union> (\<Union>i \<in> {0..<m}. term3 rst care as X m k i), low3 X m k m)"
    unfolding rho3_r_body_def d using rho3_i_fold[OF le_refl m, of rst care X k "?U k"]
    by simp
  also have "?U k \<union> (\<Union>i \<in> {0..<m}. term3 rst care as X m k i) = ?U (Suc k)"
    by (simp add: atLeast0_lessThan_Suc Un_commute)
  finally show ?case by (simp add: low3_Suc_r)
qed

lemma rho3_j_fold:
  assumes cof: "\<forall>j < n. bdd_cofactor T (jx_cube (enc j)) = jx_ncube (enc ((j + 1) mod n))"
    and sh: "x_shape xA n m R X" and m: "m \<le> length as" and k: "k \<le> n"
  shows "efold (rho3_j_body rst care T as xA) [0..<k] (ZERO, jx_cube (enc 0)) =
           Inr (\<Union>j \<in> {0..<k}. rule3 rst care as (X j) m (R j)
                                   \<inter> jx_cube (enc j) \<inter> jx_ncube (enc j),
                jx_cube (enc (k mod n)))"
  using k
proof (induction k)
  case 0
  show ?case by simp
next
  case (Suc k)
  let ?V = "\<lambda>j. rule3 rst care as (X j) m (R j) \<inter> jx_cube (enc j) \<inter> jx_ncube (enc j)"
  let ?xj = "map (\<lambda>r. (r, map (\<lambda>i. (i, X k r i)) [0..<m])) [0..<R k]"
  from Suc have kn: "k < n" and IH: "efold (rho3_j_body rst care T as xA) [0..<k]
      (ZERO, jx_cube (enc 0)) = Inr (\<Union>j \<in> {0..<k}. ?V j, jx_cube (enc (k mod n)))"
    by simp_all
  from kn sh have d: "dict_get k xA = Inr ?xj"
    by (simp add: x_shape_def dict_get_def)
  from kn cof have c: "bdd_cofactor T (jx_cube (enc k)) = jx_ncube (enc ((k + 1) mod n))"
    by simp
  have f: "efold (rho3_r_body rst care as ?xj) [0..<length ?xj] (ZERO, ZERO) =
      Inr (rule3 rst care as (X k) m (R k), low3 (X k) m (R k) 0)"
    using rho3_r_fold[OF le_refl m, of rst care "X k" "R k"] by (simp add: rule3_def)
  have "efold (rho3_j_body rst care T as xA) [0..<Suc k] (ZERO, jx_cube (enc 0)) =
      ebind (efold (rho3_j_body rst care T as xA) [0..<k] (ZERO, jx_cube (enc 0)))
        (rho3_j_body rst care T as xA k)"
    by (rule efold_upt_Suc) simp
  also have "\<dots> = rho3_j_body rst care T as xA k (\<Union>j \<in> {0..<k}. ?V j, jx_cube (enc k))"
    unfolding IH using kn by simp
  also have "\<dots> = Inr ((\<Union>j \<in> {0..<k}. ?V j) \<union> ?V k, jx_cube (enc ((k + 1) mod n)))"
    unfolding rho3_j_body_def d using f c by (simp add: Let_def)
  also have "(\<Union>j \<in> {0..<k}. ?V j) \<union> ?V k = (\<Union>j \<in> {0..<Suc k}. ?V j)"
    by (auto simp: less_Suc_eq)
  finally show ?case by simp
qed

lemma calc_rho3_sem:
  assumes jx: "jx_ok w n enc" and sh: "x_shape (xArray w) n m R X"
    and m: "m = length (assumptions w)" "0 < m"
  shows "calc_rho3 rst w n care =
           Inr ((\<Union>j \<in> {0..<n}. rule3 rst care (assumptions w) (X j) m (R j)
                                   \<inter> jx_cube (enc j) \<inter> jx_ncube (enc j))
                \<inter> transition12 w)"
proof -
  from jx obtain T where T: "transitionjx w = Some T"
    "\<forall>j < n. bdd_cofactor T (jx_cube (enc j)) = jx_ncube (enc ((j + 1) mod n))"
    and i: "initjx w = Some (jx_cube (enc 0))"
    and v: "jx_ps_vars w \<noteq> None" "jx_ns_vars w \<noteq> None"
    by (auto simp: jx_ok_def)
  from m have a: "assumptions w \<noteq> []" "m \<le> length (assumptions w)" by auto
  from rho3_j_fold[OF T(2) sh a(2) le_refl]
  have "efold (rho3_j_body rst care T (assumptions w) (xArray w)) [0..<n] (ZERO, jx_cube (enc 0)) =
           Inr (\<Union>j \<in> {0..<n}. rule3 rst care (assumptions w) (X j) m (R j)
                                   \<inter> jx_cube (enc j) \<inter> jx_ncube (enc j),
                jx_cube (enc (n mod n)))" .
  with T(1) i v a(1) show ?thesis
    by (auto simp: calc_rho3_def simp del: ZERO_def)
qed

lemma restrict_ok_mem: "restrict_ok rst \<Longrightarrow> v \<in> c \<Longrightarrow> v \<in> rst f c \<longleftrightarrow> v \<in> f"
  unfolding restrict_ok_def by blast

lemma low3_mem:
  "v \<in> low3 X m r i \<longleftrightarrow> (\<exists>r' < r. \<exists>i' < m. v \<in> X r' i') \<or> (\<exists>i' < i. v \<in> X r i')"
  by (auto simp: low3_def)

lemma term3_mem:
  assumes "restrict_ok rst" "v \<in> care"
  shows "v \<in> term3 rst care as X m r i \<longleftrightarrow>
           v \<in> X r i \<and> (\<forall>r' < r. \<forall>i' < m. v \<notin> X r' i') \<and> (\<forall>i' < i. v \<notin> X r i') \<and>
           v \<notin> as ! i \<and> swap_io v \<in> X r i"
  unfolding term3_def using assms
  by (auto simp: restrict_ok_mem low3_mem swapVariables_io_def)

lemma rule3_mem:
  assumes "restrict_ok rst" "v \<in> care"
  shows "v \<in> rule3 rst care as X m R \<longleftrightarrow>
           (\<exists>r < R. \<exists>i < m. v \<in> X r i \<and>
              (\<forall>r' < r. \<forall>i' < m. v \<notin> X r' i') \<and> (\<forall>i' < i. v \<notin> X r i') \<and>
              v \<notin> as ! i \<and> swap_io v \<in> X r i)"
  unfolding rule3_def by (simp add: term3_mem[OF assms] Bex_def)


lemma rule3_cube_mem:
  assumes "restrict_ok rst" "v \<in> care"
  shows "v \<in> (\<Union>j \<in> {0..<n::nat}. rule3 rst care as (X j) m (R j)
                                   \<inter> jx_cube (enc j) \<inter> jx_ncube (enc j)) \<longleftrightarrow>
              (\<exists>j < n. snd (snd (fst v)) = enc j \<and> snd (snd (snd v)) = enc j \<and>
                 (\<exists>r < R j. \<exists>i < m. v \<in> X j r i \<and>
                    (\<forall>r' < r. \<forall>i' < m. v \<notin> X j r' i') \<and> (\<forall>i' < i. v \<notin> X j r i') \<and>
                    v \<notin> as ! i \<and> swap_io v \<in> X j r i))"
proof -
  have reorder: "\<And>E a b. ((E \<and> a) \<and> b) = (a \<and> b \<and> E)" by blast
  have per: "v \<in> rule3 rst care as (X j) m (R j) \<inter> jx_cube (enc j) \<inter> jx_ncube (enc j) \<longleftrightarrow>
      snd (snd (fst v)) = enc j \<and> snd (snd (snd v)) = enc j \<and>
                 (\<exists>r < R j. \<exists>i < m. v \<in> X j r i \<and>
                    (\<forall>r' < r. \<forall>i' < m. v \<notin> X j r' i') \<and> (\<forall>i' < i. v \<notin> X j r i') \<and>
                    v \<notin> as ! i \<and> swap_io v \<in> X j r i)" for j
    unfolding Int_iff rule3_mem[OF assms] jx_cube_def jx_ncube_def mem_Collect_eq
    by (rule reorder)
  show ?thesis by (simp only: UN_iff per) (simp add: Bex_def)
qed

section \<open>Rule 2\<close>

lemma low2_Suc: "low2 Y r \<union> Y r = low2 Y (Suc r)"
  by (simp add: low2_def atLeast0_lessThan_Suc Un_commute)

lemma low2_1: "low2 Y (Suc 0) = Y 0"
  by (simp add: low2_def)

lemma rho2_r_fold:
  assumes k: "k < R"
  shows "efold (rho2_r_body rst care (map (\<lambda>r. (r, Y r)) [0..<R])) [1..<Suc k] (ZERO, Y 0) =
           Inr (\<Union>r \<in> {1..<Suc k}. term2 rst care Y r, low2 Y (Suc k))"
  using k
proof (induction k)
  case 0
  show ?case by (simp add: low2_1)
next
  case (Suc k)
  let ?yj = "map (\<lambda>r. (r, Y r)) [0..<R]"
  let ?U = "\<lambda>k. \<Union>r \<in> {1..<k}. term2 rst care Y r"
  from Suc have kR: "Suc k < R" and IH: "efold (rho2_r_body rst care ?yj) [1..<Suc k] (ZERO, Y 0) =
           Inr (?U (Suc k), low2 Y (Suc k))"
    by simp_all
  from kR have d: "dict_get (Suc k) ?yj = Inr (Y (Suc k))" by (rule dict_get_map_upt)
  have "efold (rho2_r_body rst care ?yj) [1..<Suc (Suc k)] (ZERO, Y 0) =
      ebind (efold (rho2_r_body rst care ?yj) [1..<Suc k] (ZERO, Y 0))
        (rho2_r_body rst care ?yj (Suc k))"
    by (rule efold_upt_Suc) simp
  also have "\<dots> = rho2_r_body rst care ?yj (Suc k) (?U (Suc k), low2 Y (Suc k))"
    unfolding IH by simp
  also have "\<dots> = Inr (?U (Suc k) \<union> term2 rst care Y (Suc k), low2 Y (Suc k) \<union> Y (Suc k))"
    unfolding rho2_r_body_def d by (simp add: term2_def Let_def)
  also have "?U (Suc k) \<union> term2 rst care Y (Suc k) = ?U (Suc (Suc k))"
    by (simp add: atLeastLessThanSuc Un_commute)
  finally show ?case by (simp add: low2_Suc)
qed

lemma rho2_j_fold:
  assumes cof: "\<forall>j < n. bdd_cofactor T (jx_cube (enc j)) = jx_ncube (enc ((j + 1) mod n))"
    and sh: "y_shape yA n R Y" and R: "\<forall>j < n. 0 < R j" and k: "k \<le> n"
  shows "efold (rho2_j_body rst care T yA) [0..<k] (ZERO, jx_cube (enc 0)) =
           Inr (\<Union>j \<in> {0..<k}. rule2 rst care (Y j) (R j)
                                   \<inter> jx_cube (enc j) \<inter> jx_ncube (enc j),
                jx_cube (enc (k mod n)))"
  using k
proof (induction k)
  case 0
  show ?case by simp
next
  case (Suc k)
  let ?V = "\<lambda>j. rule2 rst care (Y j) (R j) \<inter> jx_cube (enc j) \<inter> jx_ncube (enc j)"
  let ?yj = "map (\<lambda>r. (r, Y k r)) [0..<R k]"
  from Suc have kn: "k < n" and IH: "efold (rho2_j_body rst care T yA) [0..<k]
      (ZERO, jx_cube (enc 0)) = Inr (\<Union>j \<in> {0..<k}. ?V j, jx_cube (enc (k mod n)))"
    by simp_all
  from kn sh have d: "dict_get k yA = Inr ?yj"
    by (simp add: y_shape_def dict_get_def)
  from kn R have Rk: "0 < R k" by simp
  then have d0: "dict_get 0 ?yj = Inr (Y k 0)" by (rule dict_get_map_upt)
  from kn cof have c: "bdd_cofactor T (jx_cube (enc k)) = jx_ncube (enc ((k + 1) mod n))"
    by simp
  from Rk obtain p where p: "R k = Suc p" by (cases "R k") auto
  have f: "efold (rho2_r_body rst care ?yj) [1..<length ?yj] (ZERO, Y k 0) =
      Inr (rule2 rst care (Y k) (R k), low2 (Y k) (R k))"
    using rho2_r_fold[of p "R k" rst care "Y k"] p by (simp add: rule2_def)
  have "efold (rho2_j_body rst care T yA) [0..<Suc k] (ZERO, jx_cube (enc 0)) =
      ebind (efold (rho2_j_body rst care T yA) [0..<k] (ZERO, jx_cube (enc 0)))
        (rho2_j_body rst care T yA k)"
    by (rule efold_upt_Suc) simp
  also have "\<dots> = rho2_j_body rst care T yA k (\<Union>j \<in> {0..<k}. ?V j, jx_cube (enc k))"
    unfolding IH using kn by simp
  also have "\<dots> = Inr ((\<Union>j \<in> {0..<k}. ?V j) \<union> ?V k, jx_cube (enc ((k + 1) mod n)))"
    unfolding rho2_j_body_def d using f c d0 by (simp add: Let_def)
  also have "(\<Union>j \<in> {0..<k}. ?V j) \<union> ?V k = (\<Union>j \<in> {0..<Suc k}. ?V j)"
    by (simp add: atLeast0_lessThan_Suc Un_commute)
  finally show ?case by simp
qed

lemma calc_rho2_sem:
  assumes jx: "jx_ok w n enc" and sh: "y_shape (yArray w) n R Y" and R: "\<forall>j < n. 0 < R j"
  shows "calc_rho2 rst w n care =
           Inr ((\<Union>j \<in> {0..<n}. rule2 rst care (Y j) (R j)
                                   \<inter> jx_cube (enc j) \<inter> jx_ncube (enc j))
                \<inter> transition12 w)"
proof -
  from jx obtain T where T: "transitionjx w = Some T"
    "\<forall>j < n. bdd_cofactor T (jx_cube (enc j)) = jx_ncube (enc ((j + 1) mod n))"
    and i: "initjx w = Some (jx_cube (enc 0))"
    and v: "jx_ps_vars w \<noteq> None" "jx_ns_vars w \<noteq> None"
    by (auto simp: jx_ok_def)
  from rho2_j_fold[OF T(2) sh R le_refl]
  have "efold (rho2_j_body rst care T (yArray w)) [0..<n] (ZERO, jx_cube (enc 0)) =
           Inr (\<Union>j \<in> {0..<n}. rule2 rst care (Y j) (R j)
                                   \<inter> jx_cube (enc j) \<inter> jx_ncube (enc j),
                jx_cube (enc (n mod n)))" .
  with T(1) i v show ?thesis
    by (auto simp: calc_rho2_def simp del: ZERO_def)
qed

lemma low2_mem: "v \<in> low2 Y r \<longleftrightarrow> (\<exists>r' < r. v \<in> Y r')"
  by (auto simp: low2_def)

lemma term2_mem:
  assumes "restrict_ok rst" "v \<in> care"
  shows "v \<in> term2 rst care Y r \<longleftrightarrow>
           v \<in> Y r \<and> (\<forall>r' < r. v \<notin> Y r') \<and> (\<exists>r' < r. swap_io v \<in> Y r')"
  unfolding term2_def using assms
  by (auto simp: restrict_ok_mem low2_mem swapVariables_io_def)

section \<open>The reachable states\<close>

lemma ps_only_reach_step: "ps_only rs \<Longrightarrow> ps_only (reach_step T rs)"
  by (auto simp: ps_only_def reach_step_def swapVariables_all_def andExists_ps_all_def)

lemma reach_loop_run:
  fixes rs :: "('i::finite, 'o::finite, 'm::finite) bdd"
  assumes "ps_only rs"
  shows "\<exists>R. reach_loop T ONE old rs = Some R \<and> ps_only R \<and> rs \<subseteq> R"
  using assms
proof (induction "card (- rs)" arbitrary: rs old rule: less_induct)
  case less
  show ?case
  proof (cases "old = rs")
    case True
    then have "reach_loop T ONE old rs = Some rs"
      by (subst reach_loop.simps) simp
    with less.prems show ?thesis by simp
  next
    case False
    then have unfold: "reach_loop T ONE old rs = reach_loop T ONE rs (reach_step T rs)"
      by (subst reach_loop.simps) (simp add: reach_step_def Let_def)
    show ?thesis
    proof (cases "reach_step T rs = rs")
      case True
      then have "reach_loop T ONE rs (reach_step T rs) = Some rs"
        by (subst reach_loop.simps) simp
      with unfold less.prems show ?thesis by simp
    next
      case False
      have "rs \<subseteq> reach_step T rs" by (simp add: reach_step_def)
      with False have "- reach_step T rs \<subset> - rs" by blast
      then have c: "card (- reach_step T rs) < card (- rs)"
        by (simp add: psubset_card_mono)
      from less.hyps[OF c ps_only_reach_step[OF less.prems], of rs]
      obtain R where "reach_loop T ONE rs (reach_step T rs) = Some R" "ps_only R"
        "reach_step T rs \<subseteq> R" by blast
      with unfold \<open>rs \<subseteq> reach_step T rs\<close> show ?thesis by auto
    qed
  qed
qed

lemma reachableStates_returns:
  fixes init0 :: "('i::finite, 'o::finite, 'm::finite) bdd"
  assumes "ps_only init0"
  shows "\<exists>R. reachableStates init0 T ONE = Some R \<and> ps_only R \<and> init0 \<subseteq> R"
  unfolding reachableStates_def using reach_loop_run[of "init0 \<inter> ONE" T ZERO] assms
  by simp

section \<open>Facts about the example objects\<close>

lemma calcWinningRegion_game_two: "calcWinningRegion marduk_bit game_two = Some (Inr wr_two)"
  by code_simp

lemma all_less_2: "(\<forall>j < (2::nat). P j) \<longleftrightarrow> P 0 \<and> P 1"
  by (auto simp: less_2_cases_iff)

lemma jx_ok_wr_two: "jx_ok wr_two 2 enc_bit"
proof -
  have "bdd_cofactor {v. snd (snd (snd v)) \<noteq> snd (snd (fst v))} (jx_cube False)
      = (jx_ncube True :: (unit, bool, bool) bdd)"
    "bdd_cofactor {v. snd (snd (snd v)) \<noteq> snd (snd (fst v))} (jx_cube True)
      = (jx_ncube False :: (unit, bool, bool) bdd)"
    "{v. \<not> snd (snd (fst v))} = (jx_cube False :: (unit, bool, bool) bdd)"
    by (auto simp: bdd_cofactor_def jx_cube_def jx_ncube_def)
  then show ?thesis
    by (simp add: jx_ok_def wr_two_def all_less_2 enc_bit_def)
qed

lemma x_shape_wr_two: "x_shape (xArray wr_two) 2 1 (\<lambda>j. 1) (\<lambda>j r i. ONE)"
  by (simp add: x_shape_def wr_two_def all_less_2)

lemma restrict_ok_rst_id: "restrict_ok rst_id"
  by (simp add: restrict_ok_def rst_id_def)

lemma UN_upt_2: "(\<Union>j \<in> {0..<2::nat}. F j) = F 0 \<union> F 1"
proof -
  have "{0..<2::nat} = {0, 1}" by auto
  then show ?thesis by simp
qed

lemma cube_union_2:
  "(\<Union>j \<in> {0..<2}. A \<inter> jx_cube (enc_bit j) \<inter> jx_ncube (enc_bit j))
     = A \<inter> {v :: (unit, bool, bool) valuation. snd (snd (snd v)) = snd (snd (fst v))}"
  unfolding UN_upt_2 by (auto simp: jx_cube_def jx_ncube_def enc_bit_def)

lemma calc_rho3_wr_two:
  "calc_rho3 rst_id wr_two 2 ONE
     = Inr {v. \<not> fst (snd (fst v)) \<and> snd (snd (snd v)) = snd (snd (fst v))}"
proof -
  have m: "1 = length (assumptions wr_two)" "0 < (1::nat)" by (simp_all add: wr_two_def)
  have r: "rule3 rst_id ONE (assumptions wr_two) (\<lambda>r i. ONE) 1 1 = - out_high_m"
    by (simp add: rule3_def term3_def low3_def rst_id_def wr_two_def swapVariables_io_def)
  have "calc_rho3 rst_id wr_two 2 ONE = Inr ((- out_high_m)
      \<inter> {v :: (unit, bool, bool) valuation. snd (snd (snd v)) = snd (snd (fst v))} \<inter> transition12 wr_two)"
    unfolding calc_rho3_sem[OF jx_ok_wr_two x_shape_wr_two m] r cube_union_2 by (rule refl)
  also have "(- out_high_m)
      \<inter> {v :: (unit, bool, bool) valuation. snd (snd (snd v)) = snd (snd (fst v))} \<inter> transition12 wr_two
      = {v. \<not> fst (snd (fst v)) \<and> snd (snd (snd v)) = snd (snd (fst v))}"
    by (auto simp: out_high_m_def wr_two_def)
  finally show ?thesis .
qed

lemma well_formed_game_two: "well_formed game_two"
  by (simp add: well_formed_def game_two_def state_pred_def env_trans_pred_def
      sys_trans_pred_def out_high_m_def)

lemma isRealizable_wr_two: "isRealizable wr_two = Inr (True, wr_two)"
  by code_simp

lemma reachableStates_wr_two:
  "reachableStates (init12 wr_two) (transition12 wr_two) ONE = Some ONE"
  by code_simp

lemma well_formed_game_lost: "well_formed game_lost"
  by (simp add: well_formed_def game_lost_def state_pred_def env_trans_pred_def
      sys_trans_pred_def)

lemma calcWinningRegion_game_lost: "calcWinningRegion marduk_unit game_lost = Some (Inr wr_lost)"
  by code_simp

lemma isRealizable_wr_lost: "isRealizable wr_lost = Inr (True, wr_lost)"
  by code_simp

lemma jx_ok_wr_lost: "jx_ok wr_lost 1 (\<lambda>j. ())"
  by (simp add: jx_ok_def wr_lost_def bdd_cofactor_def jx_cube_def jx_ncube_def)

section \<open>State predicates\<close>

lemma state_predD: "state_pred f \<Longrightarrow> ((i, o1, m), n) \<in> f \<Longrightarrow> ((i, o1, m2), n2) \<in> f"
  unfolding state_pred_def by blast

lemma state_pred_ps_only:
  assumes "state_pred f"
  shows "ps_only f"
  unfolding ps_only_def
proof (intro allI impI)
  fix p n n' assume "(p, n) \<in> f"
  moreover obtain i o1 m where "p = (i, o1, m)" by (cases p) auto
  ultimately show "(p, n') \<in> f" using state_predD[OF assms] by blast
qed

lemma io_closure_sup: "f \<subseteq> io_closure f"
  by (auto simp: io_closure_def; blast)

lemma io_closure_mono: "f \<subseteq> g \<Longrightarrow> io_closure f \<subseteq> io_closure g"
  by (auto simp: io_closure_def; blast)

lemma state_pred_io_closure: "state_pred (io_closure f)"
  by (auto simp: state_pred_def io_closure_def; blast)

lemma io_closure_state_pred: "state_pred f \<Longrightarrow> io_closure f = f"
  unfolding state_pred_def io_closure_def by (auto; blast)

lemma state_pred_closed: "io_closure f \<subseteq> f \<Longrightarrow> state_pred f"
  using state_pred_io_closure[of f] io_closure_sup[of f] by auto

lemma state_pred_Un: "state_pred f \<Longrightarrow> state_pred g \<Longrightarrow> state_pred (f \<union> g)"
  unfolding state_pred_def by blast

lemma state_pred_Int: "state_pred f \<Longrightarrow> state_pred g \<Longrightarrow> state_pred (f \<inter> g)"
  unfolding state_pred_def by blast

lemma state_pred_Compl: "state_pred f \<Longrightarrow> state_pred (- f)"
  unfolding state_pred_def by blast

lemma state_pred_UN:
  assumes "\<And>k. k \<in> K \<Longrightarrow> state_pred (F k)"
  shows "state_pred (\<Union>k \<in> K. F k)"
  unfolding state_pred_def
proof (intro allI impI)
  fix i o1 m n m2 n2 assume "((i, o1, m), n) \<in> (\<Union>k \<in> K. F k)"
  then obtain k where k: "k \<in> K" "((i, o1, m), n) \<in> F k" by blast
  from state_predD[OF assms[OF k(1)] k(2)] k(1)
  show "((i, o1, m2), n2) \<in> (\<Union>k \<in> K. F k)" by blast
qed

lemma state_pred_empty: "state_pred {}"
  by (simp add: state_pred_def)

lemma coax_mem:
  "((i, o1, m), (i', o', m')) \<in> coax S x \<longleftrightarrow>
     (\<forall>a. ((i, o1, m), (a, o', m')) \<in> spec_trans1 S \<longrightarrow>
        (\<exists>b. ((i, o1, m), (a, b, m')) \<in> spec_trans2 S \<and> ((a, b, m'), (i, o1, m)) \<in> x))"
  by (auto simp: coax_def Let_def forall_ns_in_def andExists_ns_out_def exists_ns_out_def
      swapVariables_all_def)

lemma coax_state_pred:
  fixes S :: "('i, 'o, 'm) Specification"
  assumes T1: "env_trans_pred (spec_trans1 S)" and T2: "sys_trans_pred (spec_trans2 S)"
    and x: "state_pred x"
  shows "state_pred (coax S x)"
  unfolding state_pred_def
proof (intro allI impI)
  fix i o1 m n m2 and n2 :: "'i \<times> 'o \<times> 'm"
  assume v: "((i, o1, m), n) \<in> coax S x"
  obtain i' o' m' where n: "n = (i', o', m')" by (cases n) auto
  obtain i2 o2 m2' where n2: "n2 = (i2, o2, m2')" by (cases n2) auto
  have "((i, o1, m2), (i2, o2, m2')) \<in> coax S x"
    unfolding coax_mem
  proof (intro allI impI)
    fix a assume "((i, o1, m2), (a, o2, m2')) \<in> spec_trans1 S"
    with T1 have "((i, o1, m), (a, o', m')) \<in> spec_trans1 S"
      unfolding env_trans_pred_def by blast
    moreover from v n have "((i, o1, m), (i', o', m')) \<in> coax S x" by simp
    ultimately obtain b where b: "((i, o1, m), (a, b, m')) \<in> spec_trans2 S"
      "((a, b, m'), (i, o1, m)) \<in> x"
      unfolding coax_mem by blast
    from b(1) T2 have "((i, o1, m2), (a, b, m2')) \<in> spec_trans2 S"
      unfolding sys_trans_pred_def by blast
    moreover from b(2) x have "((a, b, m2'), (i, o1, m2)) \<in> x"
      by (rule state_predD[rotated])
    ultimately show "\<exists>b. ((i, o1, m2), (a, b, m2')) \<in> spec_trans2 S \<and>
        ((a, b, m2'), (i, o1, m2)) \<in> x" by blast
  qed
  with n2 show "((i, o1, m2), n2) \<in> coax S x" by simp
qed

lemma well_formedD:
  assumes "well_formed S"
  shows "env_trans_pred (spec_trans1 S)" "sys_trans_pred (spec_trans2 S)"
    "state_pred (spec_init1 S)" "state_pred (spec_init2 S)"
    "\<And>i. i < length (spec_assumptions S) \<Longrightarrow> state_pred (spec_assumptions S ! i)"
    "\<And>j. j < length (spec_guarantees S) \<Longrightarrow> state_pred (spec_guarantees S ! j)"
  using assms by (simp_all add: well_formed_def)

lemma state_pred_subsetD:
  assumes "state_pred f" "v \<in> f" "fst (fst u) = fst (fst v)" "fst (snd (fst u)) = fst (snd (fst v))"
  shows "u \<in> f"
proof -
  obtain i o1 m n where v: "v = ((i, o1, m), n)" by (cases v) auto
  obtain i2 o2 m2 n2 where u: "u = ((i2, o2, m2), n2)" by (cases u) auto
  from assms(3,4) v u have "i2 = i" "o2 = o1" by simp_all
  with state_predD[OF assms(1), of i o1 m n m2 n2] assms(2) v u show ?thesis by simp
qed

lemma io_closure_mem:
  "u \<in> io_closure f \<longleftrightarrow> (\<exists>v \<in> f. fst (fst u) = fst (fst v) \<and> fst (snd (fst u)) = fst (snd (fst v)))"
proof
  assume "u \<in> io_closure f"
  then obtain m n where "((fst (fst u), fst (snd (fst u)), m), n) \<in> f"
    unfolding io_closure_def by blast
  then show "\<exists>v \<in> f. fst (fst u) = fst (fst v) \<and> fst (snd (fst u)) = fst (snd (fst v))"
    by (intro bexI[of _ "((fst (fst u), fst (snd (fst u)), m), n)"]) simp_all
next
  assume "\<exists>v \<in> f. fst (fst u) = fst (fst v) \<and> fst (snd (fst u)) = fst (snd (fst v))"
  then obtain v where v: "v \<in> f" "fst (fst u) = fst (fst v)"
    "fst (snd (fst u)) = fst (snd (fst v))" by blast
  obtain i o1 m n where "v = ((i, o1, m), n)" by (cases v) auto
  with v have "((fst (fst u), fst (snd (fst u)), m), n) \<in> f" by simp
  then show "u \<in> io_closure f" unfolding io_closure_def by blast
qed

lemma Xfix_state_pred:
  fixes S :: "('i, 'o, 'm) Specification"
  assumes wf: "well_formed S" and z: "state_pred z" and st: "state_pred start"
    and a: "state_pred a"
  shows "state_pred (Xfix S z start a)"
proof (rule state_pred_closed)
  let ?X = "Xfix S z start a"
  let ?q = "io_closure ?X"
  have q: "state_pred ?q" by (rule state_pred_io_closure)
  have cq: "state_pred (coax S ?q)"
    by (rule coax_state_pred[OF well_formedD(1,2)[OF wf] q])
  have "?q \<subseteq> z"
    using io_closure_mono[OF Xfix_subset[of S z start a]] io_closure_state_pred[OF z] by simp
  moreover have "?q \<subseteq> x_step S start a ?q"
  proof
    fix u assume "u \<in> ?q"
    then obtain v where v: "v \<in> ?X" "fst (fst u) = fst (fst v)"
      "fst (snd (fst u)) = fst (snd (fst v))" unfolding io_closure_mem by blast
    from v(1) Xfix_post[of S z start a] have "v \<in> x_step S start a ?X" by blast
    then consider "v \<in> start" | "v \<notin> a" "v \<in> coax S ?X" by (auto simp: x_step_def)
    then show "u \<in> x_step S start a ?q"
    proof cases
      case 1
      from state_pred_subsetD[OF st 1 v(2,3)] show ?thesis by (simp add: x_step_def)
    next
      case 2
      from 2(2) coax_mono[OF io_closure_sup[of ?X], of S] have "v \<in> coax S ?q" by blast
      from state_pred_subsetD[OF cq this v(2,3)] have "u \<in> coax S ?q" .
      moreover have "u \<notin> a"
      proof
        assume "u \<in> a"
        from state_pred_subsetD[OF a this v(2,3)[symmetric]] 2(1) show False by simp
      qed
      ultimately show ?thesis by (simp add: x_step_def)
    qed
  qed
  ultimately show "?q \<subseteq> ?X" by (rule Xfix_greatest)
qed

lemma y_start_state_pred:
  fixes S :: "('i, 'o, 'm) Specification"
  assumes wf: "well_formed S" and z: "state_pred z" and y: "state_pred y"
    and j: "j < length (spec_guarantees S)"
  shows "state_pred (y_start S z j y)"
  unfolding y_start_def
  by (intro state_pred_Un state_pred_Int well_formedD(6)[OF wf j]
      coax_state_pred[OF well_formedD(1,2)[OF wf]] z y)

lemma Ystep_state_pred:
  fixes S :: "('i, 'o, 'm) Specification"
  assumes wf: "well_formed S" and z: "state_pred z" and y: "state_pred y"
    and j: "j < length (spec_guarantees S)"
  shows "state_pred (Ystep S z j y)"
  unfolding Ystep_def
proof (rule state_pred_UN)
  fix i assume "i \<in> {0..<length (spec_assumptions S)}"
  then have i: "i < length (spec_assumptions S)" by simp
  show "state_pred (Xfix S z (y_start S z j y) (spec_assumptions S ! i))"
    by (rule Xfix_state_pred[OF wf z y_start_state_pred[OF wf z y j] well_formedD(5)[OF wf i]])
qed

lemma Yiter_state_pred:
  fixes S :: "('i, 'o, 'm) Specification"
  assumes wf: "well_formed S" and z: "state_pred z" and j: "j < length (spec_guarantees S)"
  shows "state_pred (Yiter S z j k)"
proof (induction k)
  case 0
  show ?case by (simp add: Yiter_0 state_pred_empty)
next
  case (Suc k)
  show ?case unfolding Yiter_Suc by (rule Ystep_state_pred[OF wf z Suc j])
qed

lemma Yfix_state_pred:
  fixes S :: "('i, 'o, 'm) Specification"
  assumes wf: "well_formed S" and z: "state_pred z" and j: "j < length (spec_guarantees S)"
  shows "state_pred (Yfix S z j)"
  unfolding Yfix_def by (rule Yiter_state_pred[OF wf z j])

lemma Wfix_state_pred:
  fixes S :: "('i::finite, 'o::finite, 'm::finite) Specification"
  assumes wf: "well_formed S"
  shows "state_pred (Wfix S)"
proof (rule state_pred_closed)
  let ?q = "io_closure (Wfix S)"
  have q: "state_pred ?q" by (rule state_pred_io_closure)
  show "?q \<subseteq> Wfix S"
  proof (rule Wfix_greatest)
    fix j assume j: "j < length (spec_guarantees S)"
    have "Wfix S \<subseteq> Yfix S (Wfix S) j" by (rule Wfix_post[OF j])
    also have "\<dots> \<subseteq> Yfix S ?q j" by (rule Yfix_mono[OF io_closure_sup])
    finally have "?q \<subseteq> io_closure (Yfix S ?q j)" by (rule io_closure_mono)
    also have "\<dots> = Yfix S ?q j"
      by (rule io_closure_state_pred[OF Yfix_state_pred[OF wf q j]])
    finally show "?q \<subseteq> Yfix S ?q j" .
  qed
qed

section \<open>Progress from a winning state\<close>

lemma y_entry_UN:
  "y_entry S j r = (\<Union>i \<in> {0..<length (spec_assumptions S)}. x_entry S j r i)"
  by (simp add: y_entry_def x_entry_def Yiter_Suc Ystep_def)

lemma winning_progress:
  fixes S :: "('i::finite, 'o::finite, 'm::finite) Specification"
  assumes j: "j < length (spec_guarantees S)"
    and v: "((i, o1, mm), (i', o', m')) \<in> Wfix S"
    and e: "((i, o1, mm), (a, o', m')) \<in> spec_trans1 S"
  shows "\<exists>b. ((i, o1, mm), (a, b, m')) \<in> spec_trans2 S \<and>
     ((((i, o1, mm), (i', o', m')) \<in> spec_guarantees S ! j \<and>
        ((a, b, m'), (i, o1, mm)) \<in> Wfix S)
      \<or> (\<exists>r. 0 < r \<and> r < row_count S j \<and>
             ((i, o1, mm), (i', o', m')) \<in> y_entry S j r \<and>
             (\<forall>r' < r. ((i, o1, mm), (i', o', m')) \<notin> y_entry S j r') \<and>
             (\<exists>r' < r. ((a, b, m'), (i, o1, mm)) \<in> y_entry S j r'))
      \<or> (\<exists>r < row_count S j. \<exists>k < length (spec_assumptions S).
             ((i, o1, mm), (i', o', m')) \<in> x_entry S j r k \<and>
             (\<forall>r' < r. \<forall>k' < length (spec_assumptions S).
                 ((i, o1, mm), (i', o', m')) \<notin> x_entry S j r' k') \<and>
             (\<forall>k' < k. ((i, o1, mm), (i', o', m')) \<notin> x_entry S j r k') \<and>
             ((i, o1, mm), (i', o', m')) \<notin> spec_assumptions S ! k \<and>
             ((a, b, m'), (i, o1, mm)) \<in> x_entry S j r k))"
proof -
  let ?v = "((i, o1, mm), (i', o', m'))"
  let ?m = "length (spec_assumptions S)"
  let ?Yi = "Yiter S (Wfix S) j"
  have step: "\<exists>b. ((i, o1, mm), (a, b, m')) \<in> spec_trans2 S \<and> ((a, b, m'), (i, o1, mm)) \<in> Z"
    if "?v \<in> coax S Z" for Z
    using that e unfolding coax_mem by blast
  have "?v \<in> ?Yi (row_count S j)"
    using v Yfix_Wfix[OF j] by (simp add: Yfix_def row_count_def)
  moreover have "?v \<notin> ?Yi 0" by (simp add: Yiter_0)
  ultimately obtain p where p: "row_count S j = Suc p" "?v \<in> ?Yi (Suc p)"
    by (cases "row_count S j") auto
  define r0 where "r0 = (LEAST r. ?v \<in> ?Yi (Suc r))"
  have r0: "?v \<in> ?Yi (Suc r0)" unfolding r0_def using p(2) by (rule LeastI)
  have least: "?v \<notin> ?Yi (Suc r')" if "r' < r0" for r'
    using that not_less_Least unfolding r0_def by blast
  have "r0 \<le> p" unfolding r0_def using p(2) by (rule Least_le)
  with p(1) have r0R: "r0 < row_count S j" by simp
  have nr0: "?v \<notin> ?Yi r0"
  proof (cases r0)
    case 0
    then show ?thesis by (simp add: Yiter_0)
  next
    case (Suc k)
    with least[of k] show ?thesis by simp
  qed
  from r0 have "\<exists>k. k < ?m \<and> ?v \<in> x_entry S j r0 k"
    unfolding y_entry_def[symmetric] y_entry_UN by auto
  define k0 where "k0 = (LEAST k. k < ?m \<and> ?v \<in> x_entry S j r0 k)"
  from \<open>\<exists>k. k < ?m \<and> ?v \<in> x_entry S j r0 k\<close>
  have k0: "k0 < ?m \<and> ?v \<in> x_entry S j r0 k0" unfolding k0_def by (rule LeastI_ex)
  have kleast: "?v \<notin> x_entry S j r0 k'" if "k' < k0" for k'
  proof
    assume "?v \<in> x_entry S j r0 k'"
    with that k0 have "k' < ?m \<and> ?v \<in> x_entry S j r0 k'" by simp
    then have "k0 \<le> k'" unfolding k0_def by (rule Least_le)
    with that show False by simp
  qed
  have rleast: "?v \<notin> x_entry S j r' k'" if "r' < r0" "k' < ?m" for r' k'
  proof
    assume "?v \<in> x_entry S j r' k'"
    with that(2) have "?v \<in> y_entry S j r'" unfolding y_entry_UN by auto
    with least[OF that(1)] show False by (simp add: y_entry_def)
  qed
  have yleast: "?v \<notin> y_entry S j r'" if "r' < r0" for r'
    using least[OF that] by (simp add: y_entry_def)
  from k0 Xfix_post[of S "Wfix S" "y_start S (Wfix S) j (?Yi r0)" "spec_assumptions S ! k0"]
  have "?v \<in> x_step S (y_start S (Wfix S) j (?Yi r0)) (spec_assumptions S ! k0)
      (x_entry S j r0 k0)"
    unfolding x_entry_def by blast
  then consider
      (c1) "?v \<in> spec_guarantees S ! j" "?v \<in> coax S (Wfix S)"
    | (c2) "?v \<in> coax S (?Yi r0)"
    | (c3) "?v \<notin> spec_assumptions S ! k0" "?v \<in> coax S (x_entry S j r0 k0)"
    by (auto simp: x_step_def y_start_def)
  then show ?thesis
  proof cases
    case c1
    from step[OF c1(2)] c1(1) show ?thesis by blast
  next
    case c2
    from step[OF c2] obtain b where b: "((i, o1, mm), (a, b, m')) \<in> spec_trans2 S"
      "((a, b, m'), (i, o1, mm)) \<in> ?Yi r0" by blast
    from b(2) obtain q where q: "r0 = Suc q" by (cases r0) (auto simp: Yiter_0)
    with b(2) have "q < r0" "((a, b, m'), (i, o1, mm)) \<in> y_entry S j q"
      by (simp_all add: y_entry_def)
    then have "\<exists>r' < r0. ((a, b, m'), (i, o1, mm)) \<in> y_entry S j r'" by blast
    moreover from q have "0 < r0" by simp
    moreover from r0 have "?v \<in> y_entry S j r0" by (simp add: y_entry_def)
    ultimately have "0 < r0 \<and> r0 < row_count S j \<and> ?v \<in> y_entry S j r0 \<and>
             (\<forall>r' < r0. ?v \<notin> y_entry S j r') \<and>
             (\<exists>r' < r0. ((a, b, m'), (i, o1, mm)) \<in> y_entry S j r')"
      using r0R yleast by blast
    with b(1) show ?thesis by blast
  next
    case c3
    from step[OF c3(2)] obtain b where b: "((i, o1, mm), (a, b, m')) \<in> spec_trans2 S"
      "((a, b, m'), (i, o1, mm)) \<in> x_entry S j r0 k0" by blast
    have "r0 < row_count S j \<and> k0 < ?m \<and> ?v \<in> x_entry S j r0 k0 \<and>
             (\<forall>r' < r0. \<forall>k' < ?m. ?v \<notin> x_entry S j r' k') \<and>
             (\<forall>k' < k0. ?v \<notin> x_entry S j r0 k') \<and>
             ?v \<notin> spec_assumptions S ! k0 \<and>
             ((a, b, m'), (i, o1, mm)) \<in> x_entry S j r0 k0"
      using r0R k0 rleast kleast c3(1) b(2) by blast
    with b(1) show ?thesis by blast
  qed
qed

lemma calcWinningRegion_shapes:
  fixes S :: "('i::finite, 'o::finite, 'm::finite) Specification"
  assumes "calcWinningRegion marduk S = Some (Inr w)"
  shows "winningRegion w = Wfix S"
    "x_shape (xArray w) (length (spec_guarantees S)) (length (spec_assumptions S))
       (row_count S) (x_entry S)"
    "y_shape (yArray w) (length (spec_guarantees S)) (row_count S) (y_entry S)"
    "guarantees w = spec_guarantees S" "assumptions w = spec_assumptions S"
    "transition1 w = spec_trans1 S" "transition12 w = get_trans12 S"
    "init12 w = get_init12 S"
proof -
  from calcWinningRegion_code[of marduk S] assms
  have w: "winningRegion w = Wfix S"
    "\<forall>j < length (spec_guarantees S).
        map_of (xArray w) j = Some (x_rows S (Wfix S) j) \<and>
        map_of (yArray w) j = Some (y_rows S (Wfix S) j)"
    "guarantees w = spec_guarantees S" "assumptions w = spec_assumptions S"
    "transition1 w = spec_trans1 S" "transition12 w = get_trans12 S"
    "init12 w = get_init12 S"
    by auto
  from w(1,3-7) show "winningRegion w = Wfix S"
    "guarantees w = spec_guarantees S" "assumptions w = spec_assumptions S"
    "transition1 w = spec_trans1 S" "transition12 w = get_trans12 S"
    "init12 w = get_init12 S" by simp_all
  have "x_rows S (Wfix S) j = map (\<lambda>r. (r, map (\<lambda>i. (i, x_entry S j r i))
      [0..<length (spec_assumptions S)])) [0..<row_count S j]" for j
    by (simp add: x_rows_def x_row_def[abs_def] x_entry_def row_count_def)
  with w(2) show "x_shape (xArray w) (length (spec_guarantees S)) (length (spec_assumptions S))
       (row_count S) (x_entry S)"
    by (simp add: x_shape_def)
  have "y_rows S (Wfix S) j = map (\<lambda>r. (r, y_entry S j r)) [0..<row_count S j]" for j
    by (simp add: y_rows_def y_row_def[abs_def] y_entry_def row_count_def)
  with w(2) show "y_shape (yArray w) (length (spec_guarantees S)) (row_count S) (y_entry S)"
    by (simp add: y_shape_def)
qed

lemma isRealizable_fields:
  assumes "isRealizable w = Inr (b, w')"
  shows "winningRegion w' = winningRegion w" "xArray w' = xArray w" "yArray w' = yArray w"
    "guarantees w' = guarantees w" "assumptions w' = assumptions w"
    "transition1 w' = transition1 w" "transition12 w' = transition12 w"
    "transitionjx w' = transitionjx w" "initjx w' = initjx w"
    "jx_ps_vars w' = jx_ps_vars w" "jx_ns_vars w' = jx_ns_vars w"
    "init12 w' = init12 w \<or> init12 w' = init12 w \<inter> winningRegion w"
  using assms by (auto simp: isRealizable_def Let_def split: if_splits option.splits)

lemma row_count_pos:
  fixes S :: "('i::finite, 'o::finite, 'm::finite) Specification"
  assumes "j < length (spec_guarantees S)" "v \<in> Wfix S"
  shows "0 < row_count S j"
proof (rule ccontr)
  assume "\<not> 0 < row_count S j"
  then have "Yfix S (Wfix S) j = {}" by (simp add: row_count_def Yfix_def Yiter_0)
  with Yfix_Wfix[OF assms(1)] assms(2) show False by simp
qed

lemma x_entry_state_pred:
  fixes S :: "('i::finite, 'o::finite, 'm::finite) Specification"
  assumes wf: "well_formed S" and j: "j < length (spec_guarantees S)"
    and k: "k < length (spec_assumptions S)"
  shows "state_pred (x_entry S j r k)"
  unfolding x_entry_def
  by (intro Xfix_state_pred[OF wf] y_start_state_pred[OF wf] Yiter_state_pred[OF wf]
      Wfix_state_pred[OF wf] well_formedD(5)[OF wf k] j)

lemma y_entry_state_pred:
  fixes S :: "('i::finite, 'o::finite, 'm::finite) Specification"
  assumes wf: "well_formed S" and j: "j < length (spec_guarantees S)"
  shows "state_pred (y_entry S j r)"
  unfolding y_entry_def by (rule Yiter_state_pred[OF wf Wfix_state_pred[OF wf] j])

lemma calcStrategy_sem:
  assumes jx: "jx_ok w n enc" and n: "n = length (guarantees w)" "0 < n"
    and xs: "x_shape (xArray w) n m R X" and m: "m = length (assumptions w)" "0 < m"
    and ys: "y_shape (yArray w) n R Y" and R: "\<forall>j < n. 0 < R j"
    and care: "reachableStates (init12 w) (transition12 w) ONE = Some care"
  shows "calcStrategy rst w = Some (Inr (rst
     (((\<Union>j \<in> {0..<n}. rule3 rst care (assumptions w) (X j) m (R j)
                                   \<inter> jx_cube (enc j) \<inter> jx_ncube (enc j))
                \<inter> transition12 w) \<union>
      ((\<Union>j \<in> {0..<n}. rule2 rst care (Y j) (R j)
                                   \<inter> jx_cube (enc j) \<inter> jx_ncube (enc j))
                \<inter> transition12 w) \<union>
      ((\<Union>j \<in> {0..<n}. jx_cube (enc j) \<inter> guarantees w ! j
                                  \<inter> jx_ncube (enc ((j + 1) mod n)))
                \<inter> (winningRegion w \<inter> transition12 w \<inter> swapVariables_io (winningRegion w))))
     care))"
proof -
  from n have g: "guarantees w \<noteq> []" by auto
  show ?thesis
    unfolding calcStrategy_def care n(1)[symmetric] Let_def option.case
      calc_rho3_sem[OF jx xs m] calc_rho2_sem[OF jx ys R] calc_rho1_sem[OF jx n]
    using g by (simp add: Un_assoc)
qed

lemma state_pred_iff:
  assumes "state_pred f"
  shows "((i, o1, m), n) \<in> f \<longleftrightarrow> ((i, o1, m2), n2) \<in> f"
  using state_predD[OF assms] by blast

lemma rule2_mem:
  assumes "restrict_ok rst" "v \<in> care"
  shows "v \<in> rule2 rst care Y R \<longleftrightarrow>
           (\<exists>r. 0 < r \<and> r < R \<and> v \<in> Y r \<and> (\<forall>r' < r. v \<notin> Y r') \<and>
                (\<exists>r' < r. swap_io v \<in> Y r'))"
  unfolding rule2_def by (simp add: term2_mem[OF assms] Bex_def Suc_le_eq)

lemma rule2_cube_mem:
  assumes "restrict_ok rst" "v \<in> care"
  shows "v \<in> (\<Union>j \<in> {0..<n::nat}. rule2 rst care (Y j) (R j)
                                   \<inter> jx_cube (enc j) \<inter> jx_ncube (enc j)) \<longleftrightarrow>
              (\<exists>j < n. snd (snd (fst v)) = enc j \<and> snd (snd (snd v)) = enc j \<and>
                 (\<exists>r. 0 < r \<and> r < R j \<and> v \<in> Y j r \<and> (\<forall>r' < r. v \<notin> Y j r') \<and>
                      (\<exists>r' < r. swap_io v \<in> Y j r')))"
proof -
  have reorder: "\<And>E a b. ((E \<and> a) \<and> b) = (a \<and> b \<and> E)" by blast
  have per: "v \<in> rule2 rst care (Y j) (R j) \<inter> jx_cube (enc j) \<inter> jx_ncube (enc j) \<longleftrightarrow>
      snd (snd (fst v)) = enc j \<and> snd (snd (snd v)) = enc j \<and>
                 (\<exists>r. 0 < r \<and> r < R j \<and> v \<in> Y j r \<and> (\<forall>r' < r. v \<notin> Y j r') \<and>
                      (\<exists>r' < r. swap_io v \<in> Y j r'))" for j
    unfolding Int_iff rule2_mem[OF assms] jx_cube_def jx_ncube_def mem_Collect_eq
    by (rule reorder)
  show ?thesis by (simp only: UN_iff per) (simp add: Bex_def)
qed

lemma rule1_cube_mem:
  "v \<in> (\<Union>j \<in> {0..<n::nat}. jx_cube (enc j) \<inter> gs ! j \<inter> jx_ncube (enc ((j + 1) mod n))) \<longleftrightarrow>
     (\<exists>j < n. snd (snd (fst v)) = enc j \<and> v \<in> gs ! j \<and>
               snd (snd (snd v)) = enc ((j + 1) mod n))"
  by (simp add: jx_cube_def jx_ncube_def Bex_def)

lemma row_count_empty:
  assumes "Wfix S = {}"
  shows "row_count S j = 0"
proof -
  have "Yiter S (Wfix S) j k = {}" for k using Yiter_subset[of S "Wfix S" j k] assms by simp
  then have "Yiter S (Wfix S) j (Suc 0) = Yiter S (Wfix S) j 0" by simp
  from Ycount_le[OF this] show ?thesis by (simp add: row_count_def)
qed

lemma calc_rho2_empty:
  assumes jx: "jx_ok w n enc" and ys: "y_shape (yArray w) n R Y" and n: "0 < n"
    and R: "R 0 = 0"
  shows "calc_rho2 rst w n care = Inl KeyError"
proof -
  from jx obtain T where T: "transitionjx w = Some T"
    and i: "initjx w = Some (jx_cube (enc 0))"
    and v: "jx_ps_vars w \<noteq> None" "jx_ns_vars w \<noteq> None"
    by (auto simp: jx_ok_def)
  from ys n R have d: "dict_get 0 (yArray w) = Inr []"
    by (simp add: y_shape_def dict_get_def)
  have e: "dict_get 0 ([] :: (nat \<times> 'd) list) = Inl KeyError" by (simp add: dict_get_def)
  have "rho2_j_body rst care T (yArray w) 0 st = Inl KeyError" for st
    unfolding rho2_j_body_def d by (cases st) (simp add: e)
  then have "efold (rho2_j_body rst care T (yArray w)) [0..<n] st = Inl KeyError" for st
    unfolding upt_conv_Cons[OF n] by simp
  with T i v show ?thesis by (auto simp: calc_rho2_def)
qed

lemma union_within: "u \<in> (A \<inter> T) \<union> (B \<inter> T) \<union> (C \<inter> (W \<inter> T \<inter> D)) \<Longrightarrow> u \<in> T"
  by blast

lemma strategy_move:
  fixes S :: "('i::finite, 'o::finite, 'm::finite) Specification"
  assumes wf: "well_formed S" and as: "spec_assumptions S \<noteq> []"
    and cw: "calcWinningRegion marduk S = Some (Inr w)"
    and re: "isRealizable w = Inr (True, w')"
    and jx: "jx_ok w (length (spec_guarantees S)) enc"
    and rst: "restrict_ok rst"
    and j: "j < length (spec_guarantees S)"
    and v: "((i, o1, enc j), (i', o', m')) \<in> winningRegion w'"
    and e: "((i, o1, enc j), (a, o', m')) \<in> transition1 w'"
  shows "\<exists>care strategy.
           reachableStates (init12 w') (transition12 w') ONE = Some care \<and>
           calcStrategy rst w' = Some (Inr strategy) \<and>
           (((i, o1, enc j), (i', o', m')) \<in> care \<longrightarrow>
              (\<exists>b mx. ((i, o1, enc j), (a, b, mx)) \<in> strategy))"
proof -
  let ?n = "length (spec_guarantees S)"
  let ?m = "length (spec_assumptions S)"
  let ?v = "((i, o1, enc j), (i', o', m'))"
  note sh = calcWinningRegion_shapes[OF cw]
  note fr = isRealizable_fields[OF re]
  have W': "winningRegion w' = Wfix S" using sh(1) fr(1) by simp
  have g': "guarantees w' = spec_guarantees S" using sh(4) fr(4) by simp
  have a': "assumptions w' = spec_assumptions S" using sh(5) fr(5) by simp
  have t12: "transition12 w' = spec_trans1 S \<inter> spec_trans2 S"
    using sh(7) fr(7) by (simp add: get_trans12_def)
  have jx': "jx_ok w' ?n enc" using jx fr(8-11) by (simp add: jx_ok_def)
  have xs': "x_shape (xArray w') ?n ?m (row_count S) (x_entry S)" using sh(2) fr(2) by simp
  have ys': "y_shape (yArray w') ?n (row_count S) (y_entry S)" using sh(3) fr(3) by simp
  have n': "?n = length (guarantees w')" "0 < ?n" using j g' by auto
  have m': "?m = length (assumptions w')" "0 < ?m" using as a' by simp_all
  have vW: "?v \<in> Wfix S" using v W' by simp
  have R: "\<forall>j < ?n. 0 < row_count S j" using row_count_pos[OF _ vW] by blast
  have spW: "state_pred (Wfix S)" by (rule Wfix_state_pred[OF wf])
  have "state_pred (get_init12 S)"
    unfolding get_init12_def by (intro state_pred_Int well_formedD(3,4)[OF wf])
  with spW have "state_pred (init12 w')"
    using fr(12) sh(8) fr(1) sh(1) by (auto intro: state_pred_Int)
  then have "ps_only (init12 w')" by (rule state_pred_ps_only)
  from reachableStates_returns[OF this, of "transition12 w'"] obtain care where
    care: "reachableStates (init12 w') (transition12 w') ONE = Some care" "ps_only care"
    by blast
  let ?U3 = "(\<Union>j \<in> {0..<?n}. rule3 rst care (assumptions w') (x_entry S j) ?m (row_count S j)
                                   \<inter> jx_cube (enc j) \<inter> jx_ncube (enc j))"
  let ?U2 = "(\<Union>j \<in> {0..<?n}. rule2 rst care (y_entry S j) (row_count S j)
                                   \<inter> jx_cube (enc j) \<inter> jx_ncube (enc j))"
  let ?U1 = "(\<Union>j \<in> {0..<?n}. jx_cube (enc j) \<inter> guarantees w' ! j
                                  \<inter> jx_ncube (enc ((j + 1) mod ?n)))"
  let ?T = "transition12 w'"
  let ?W = "winningRegion w'"
  have cs: "calcStrategy rst w' = Some (Inr (rst
     ((?U3 \<inter> ?T) \<union> (?U2 \<inter> ?T) \<union> (?U1 \<inter> (?W \<inter> ?T \<inter> swapVariables_io ?W))) care))"
    by (rule calcStrategy_sem[OF jx' n' xs' m' ys' R care(1)])
  have move: "\<exists>b mx. ((i, o1, enc j), (a, b, mx)) \<in>
      rst ((?U3 \<inter> ?T) \<union> (?U2 \<inter> ?T) \<union> (?U1 \<inter> (?W \<inter> ?T \<inter> swapVariables_io ?W))) care"
    if vc: "?v \<in> care"
  proof -
    have vc': "((i, o1, enc j), nx) \<in> care" for nx
      using care(2) vc unfolding ps_only_def by blast
    from e fr(6) sh(6) have e': "((i, o1, enc j), (a, o', m')) \<in> spec_trans1 S" by simp
    from winning_progress[OF j vW e'] obtain b where
      b: "((i, o1, enc j), (a, b, m')) \<in> spec_trans2 S" and
      cases: "(?v \<in> spec_guarantees S ! j \<and> ((a, b, m'), (i, o1, enc j)) \<in> Wfix S)
      \<or> (\<exists>r. 0 < r \<and> r < row_count S j \<and> ?v \<in> y_entry S j r \<and>
             (\<forall>r' < r. ?v \<notin> y_entry S j r') \<and>
             (\<exists>r' < r. ((a, b, m'), (i, o1, enc j)) \<in> y_entry S j r'))
      \<or> (\<exists>r < row_count S j. \<exists>k < ?m.
             ?v \<in> x_entry S j r k \<and>
             (\<forall>r' < r. \<forall>k' < ?m. ?v \<notin> x_entry S j r' k') \<and>
             (\<forall>k' < k. ?v \<notin> x_entry S j r k') \<and>
             ?v \<notin> spec_assumptions S ! k \<and>
             ((a, b, m'), (i, o1, enc j)) \<in> x_entry S j r k)"
      by blast
    have T: "((i, o1, enc j), (a, b, mx)) \<in> ?T" for mx
    proof -
      from e' well_formedD(1)[OF wf] have "((i, o1, enc j), (a, b, mx)) \<in> spec_trans1 S"
        unfolding env_trans_pred_def by blast
      moreover from b well_formedD(2)[OF wf]
      have "((i, o1, enc j), (a, b, mx)) \<in> spec_trans2 S"
        unfolding sys_trans_pred_def by blast
      ultimately show ?thesis using t12 by simp
    qed
    have in_strategy: "((i, o1, enc j), (a, b, mx)) \<in>
      rst ((?U3 \<inter> ?T) \<union> (?U2 \<inter> ?T) \<union> (?U1 \<inter> (?W \<inter> ?T \<inter> swapVariables_io ?W))) care"
      if "((i, o1, enc j), (a, b, mx)) \<in>
        (?U3 \<inter> ?T) \<union> (?U2 \<inter> ?T) \<union> (?U1 \<inter> (?W \<inter> ?T \<inter> swapVariables_io ?W))" for mx
      using that restrict_ok_mem[OF rst vc'] by blast
    from cases consider
        (c1) "?v \<in> spec_guarantees S ! j" "((a, b, m'), (i, o1, enc j)) \<in> Wfix S"
      | (c2) r where "0 < r" "r < row_count S j" "?v \<in> y_entry S j r"
             "\<forall>r' < r. ?v \<notin> y_entry S j r'"
             "\<exists>r' < r. ((a, b, m'), (i, o1, enc j)) \<in> y_entry S j r'"
      | (c3) r k where "r < row_count S j" "k < ?m" "?v \<in> x_entry S j r k"
             "\<forall>r' < r. \<forall>k' < ?m. ?v \<notin> x_entry S j r' k'"
             "\<forall>k' < k. ?v \<notin> x_entry S j r k'"
             "?v \<notin> spec_assumptions S ! k"
             "((a, b, m'), (i, o1, enc j)) \<in> x_entry S j r k"
      by blast
    then show ?thesis
    proof cases
      case c1
      let ?u = "((i, o1, enc j), (a, b, enc ((j + 1) mod ?n)))"
      have sg: "state_pred (spec_guarantees S ! j)" by (rule well_formedD(6)[OF wf j])
      have "?u \<in> spec_guarantees S ! j" using c1(1) state_pred_iff[OF sg] by blast
      with j have "?u \<in> ?U1" unfolding rule1_cube_mem g' by auto
      moreover have "?u \<in> ?W" using vW state_pred_iff[OF spW] W' by blast
      moreover have "?u \<in> swapVariables_io ?W"
        using c1(2) state_pred_iff[OF spW] W' by (simp add: swapVariables_io_def) blast
      ultimately have "?u \<in> ?U1 \<inter> (?W \<inter> ?T \<inter> swapVariables_io ?W)" using T by blast
      then show ?thesis using in_strategy by blast
    next
      case c2
      let ?u = "((i, o1, enc j), (a, b, enc j))"
      have sy: "state_pred (y_entry S j r)" for r by (rule y_entry_state_pred[OF wf j])
      have 1: "?u \<in> y_entry S j r" using c2(3) state_pred_iff[OF sy] by blast
      have 2: "\<forall>r' < r. ?u \<notin> y_entry S j r'" using c2(4) state_pred_iff[OF sy] by blast
      have 3: "\<exists>r' < r. swap_io ?u \<in> y_entry S j r'"
        using c2(5) state_pred_iff[OF sy] by simp blast
      have "?u \<in> ?U2"
        unfolding rule2_cube_mem[OF rst vc'] using j c2(1,2) 1 2 3 by auto
      with T have "?u \<in> ?U2 \<inter> ?T" by blast
      then show ?thesis using in_strategy by blast
    next
      case c3
      let ?u = "((i, o1, enc j), (a, b, enc j))"
      have sx: "state_pred (x_entry S j r k)" if "k < ?m" for r k
        by (rule x_entry_state_pred[OF wf j that])
      have sa: "state_pred (spec_assumptions S ! k)" by (rule well_formedD(5)[OF wf c3(2)])
      have 1: "?u \<in> x_entry S j r k" using c3(3) state_pred_iff[OF sx[OF c3(2)]] by blast
      have 2: "\<forall>r' < r. \<forall>k' < ?m. ?u \<notin> x_entry S j r' k'"
        using c3(4) state_pred_iff[OF sx] by blast
      have 3: "\<forall>k' < k. ?u \<notin> x_entry S j r k'"
      proof (intro allI impI)
        fix k' assume "k' < k"
        with c3(2,5) have "k' < ?m" "?v \<notin> x_entry S j r k'" by simp_all
        then show "?u \<notin> x_entry S j r k'" using state_pred_iff[OF sx] by blast
      qed
      have 4: "?u \<notin> spec_assumptions S ! k" using c3(6) state_pred_iff[OF sa] by blast
      have 5: "swap_io ?u \<in> x_entry S j r k"
        using c3(7) state_pred_iff[OF sx[OF c3(2)]] by simp blast
      have "?u \<in> ?U3"
        unfolding rule3_cube_mem[OF rst vc'] a' using j c3(1,2) 1 2 3 4 5 by auto
      with T have "?u \<in> ?U3 \<inter> ?T" by blast
      then show ?thesis using in_strategy by blast
    qed
  qed
  from care(1) cs move show ?thesis by blast
qed

section \<open>The memory counter that \<open>_moduloInc\<close> builds\<close>

lemma bdd_cofactor_cube: "bdd_cofactor T (jx_cube c) = {v. set_ps_jx c v \<in> T}"
proof -
  have "snd (snd (fst (set_ps_jx d v))) = d" for d and v :: "('a, 'b, 'c) valuation"
    by (cases v) auto
  then show ?thesis by (auto simp: bdd_cofactor_def jx_cube_def)
qed


lemma div_pow_Suc: "(j::nat) div 2 ^ Suc i = (j div 2) div 2 ^ i"
  by (simp add: div_mult2_eq)

lemma succ_bits:
  "odd (Suc j div 2 ^ i) \<longleftrightarrow> ((\<forall>l < i. odd (j div 2 ^ l)) \<noteq> odd (j div 2 ^ i))"
proof (induction i arbitrary: j)
  case 0
  show ?case by simp
next
  case (Suc i)
  have all: "(\<forall>l < Suc i. odd (j div 2 ^ l)) \<longleftrightarrow> odd j \<and> (\<forall>l < i. odd ((j div 2) div 2 ^ l))"
  proof
    assume a: "\<forall>l < Suc i. odd (j div 2 ^ l)"
    from a[rule_format, of 0] have "odd j" by simp
    moreover have "odd ((j div 2) div 2 ^ l)" if "l < i" for l
      using a[rule_format, of "Suc l"] that by (simp add: div_mult2_eq)
    ultimately show "odd j \<and> (\<forall>l < i. odd ((j div 2) div 2 ^ l))" by blast
  next
    assume a: "odd j \<and> (\<forall>l < i. odd ((j div 2) div 2 ^ l))"
    show "\<forall>l < Suc i. odd (j div 2 ^ l)"
    proof (intro allI impI)
      fix l assume "l < Suc i"
      show "odd (j div 2 ^ l)"
      proof (cases l)
        case 0
        with a show ?thesis by simp
      next
        case (Suc l')
        with \<open>l < Suc i\<close> a show ?thesis by (simp add: div_mult2_eq)
      qed
    qed
  qed
  have d: "j div 2 ^ Suc i = (j div 2) div 2 ^ i" for j :: nat
    by (simp add: div_mult2_eq)
  show ?case
  proof (cases "odd j")
    case True
    then have "Suc j div 2 = Suc (j div 2)" by (auto elim: oddE)
    then have eq: "Suc j div 2 ^ Suc i = Suc (j div 2) div 2 ^ i" unfolding d by simp
    from all True
    have a: "(\<forall>l < Suc i. odd (j div 2 ^ l)) \<longleftrightarrow> (\<forall>l < i. odd ((j div 2) div 2 ^ l))"
      by blast
    show ?thesis unfolding eq a d[of j] by (rule Suc.IH)
  next
    case False
    then have "Suc j div 2 = j div 2" by (auto elim: evenE)
    then have eq: "Suc j div 2 ^ Suc i = j div 2 ^ Suc i" unfolding d by simp
    from all False have na: "\<not> (\<forall>l < Suc i. odd (j div 2 ^ l))" by blast
    show ?thesis unfolding eq using na by blast
  qed
qed

lemma ceil_log2_bound: "n \<le> fuel \<Longrightarrow> n \<le> 2 ^ ceil_log2 fuel n"
proof (induction fuel n rule: ceil_log2.induct)
  case (1 n)
  then show ?case by simp
next
  case (2 fuel n)
  show ?case
  proof (cases "n \<le> 1")
    case True
    then show ?thesis by simp
  next
    case False
    with 2(2) have "(n + 1) div 2 \<le> fuel" by simp
    with 2(1) False have "(n + 1) div 2 \<le> 2 ^ ceil_log2 fuel ((n + 1) div 2)" by simp
    then have "n \<le> 2 * 2 ^ ceil_log2 fuel ((n + 1) div 2)" by simp
    with False show ?thesis by simp
  qed
qed

lemma num_of_bits_bound: "n \<le> 2 ^ num_of_bits n"
proof -
  have "n \<le> 2 ^ ceil_log2 n n" by (rule ceil_log2_bound) simp
  then show ?thesis
    by (cases "ceil_log2 n n = 0") (simp_all add: num_of_bits_def Let_def)
qed

lemma bits_determine:
  "j < 2 ^ k \<Longrightarrow> j' < 2 ^ k \<Longrightarrow> (\<forall>i < k. odd (j div 2 ^ i) = odd (j' div 2 ^ i)) \<Longrightarrow> j = (j'::nat)"
proof (induction k arbitrary: j j')
  case 0
  then show ?case by simp
next
  case (Suc k)
  from Suc.prems(1,2) have "j div 2 < 2 ^ k" "j' div 2 < 2 ^ k" by simp_all
  moreover have "\<forall>i < k. odd ((j div 2) div 2 ^ i) = odd ((j' div 2) div 2 ^ i)"
  proof (intro allI impI)
    fix i assume "i < k"
    with Suc.prems(3)[rule_format, of "Suc i"]
    show "odd ((j div 2) div 2 ^ i) = odd ((j' div 2) div 2 ^ i)" by (simp add: div_mult2_eq)
  qed
  ultimately have "j div 2 = j' div 2" by (rule Suc.IH)
  moreover from Suc.prems(3)[rule_format, of 0] have "odd j = odd j'" by simp
  then have "j mod 2 = j' mod 2" by (simp add: odd_iff_mod_2_eq_one) presburger
  ultimately show ?case by (metis div_mult_mod_eq)
qed


lemma inc_fold:
  "fold (\<lambda>i (t, carry).
           (t \<inter> ((- (nv ! i) \<union> bdd_xor carry (pv ! i)) \<inter> (- bdd_xor carry (pv ! i) \<union> nv ! i)),
            carry \<inter> pv ! i))
        [0..<k] (ONE, ONE) =
     ({v. \<forall>i < k. v \<in> nv ! i \<longleftrightarrow> ((\<forall>l < i. v \<in> pv ! l) \<noteq> (v \<in> pv ! i))},
      {v. \<forall>l < k. v \<in> pv ! l})"
proof (induction k)
  case 0
  show ?case by simp
next
  case (Suc k)
  have "{v. \<forall>i < k. v \<in> nv ! i \<longleftrightarrow> ((\<forall>l < i. v \<in> pv ! l) \<noteq> (v \<in> pv ! i))} \<inter>
        ((- (nv ! k) \<union> bdd_xor {v. \<forall>l < k. v \<in> pv ! l} (pv ! k)) \<inter>
         (- bdd_xor {v. \<forall>l < k. v \<in> pv ! l} (pv ! k) \<union> nv ! k)) =
        {v. \<forall>i < Suc k. v \<in> nv ! i \<longleftrightarrow> ((\<forall>l < i. v \<in> pv ! l) \<noteq> (v \<in> pv ! i))}"
    (is "?A \<inter> ?B = ?C")
  proof (rule set_eqI)
    fix v
    have "v \<in> ?B \<longleftrightarrow> (v \<in> nv ! k \<longleftrightarrow> ((\<forall>l < k. v \<in> pv ! l) \<noteq> (v \<in> pv ! k)))"
      unfolding bdd_xor_def by blast
    then show "v \<in> ?A \<inter> ?B \<longleftrightarrow> v \<in> ?C" by (simp add: less_Suc_eq) blast
  qed
  moreover have "{v. \<forall>l < k. v \<in> pv ! l} \<inter> pv ! k = {v. \<forall>l < Suc k. v \<in> pv ! l}"
    by (auto simp: less_Suc_eq)
  ultimately show ?case using Suc by simp
qed

lemma reset_fold:
  "fold (\<lambda>i (rc, rs, ss, bs).
           ((if bs mod 2 = 1 then rc \<inter> pv ! i else rc \<inter> - (pv ! i)),
            rs \<inter> - (nv ! i), ss \<inter> - (pv ! i), bs div 2))
        [0..<k] (ONE, ONE, ONE, c) =
     ({v. \<forall>i < k. v \<in> pv ! i \<longleftrightarrow> odd (c div 2 ^ i)},
      {v. \<forall>i < k. v \<notin> nv ! i}, {v. \<forall>i < k. v \<notin> pv ! i}, (c::nat) div 2 ^ k)"
proof (induction k)
  case 0
  show ?case by simp
next
  case (Suc k)
  have m: "(c div 2 ^ k) mod 2 = 1 \<longleftrightarrow> odd (c div 2 ^ k)" by (simp add: odd_iff_mod_2_eq_one)
  have "(if odd (c div 2 ^ k)
         then {v. \<forall>i < k. v \<in> pv ! i \<longleftrightarrow> odd (c div 2 ^ i)} \<inter> pv ! k
         else {v. \<forall>i < k. v \<in> pv ! i \<longleftrightarrow> odd (c div 2 ^ i)} \<inter> - (pv ! k)) =
        {v. \<forall>i < Suc k. v \<in> pv ! i \<longleftrightarrow> odd (c div 2 ^ i)}"
    by (auto simp: less_Suc_eq)
  moreover have "{v. \<forall>i < k. v \<notin> nv ! i} \<inter> - (nv ! k) = {v. \<forall>i < Suc k. v \<notin> nv ! i}"
    by (auto simp: less_Suc_eq)
  moreover have "{v. \<forall>i < k. v \<notin> pv ! i} \<inter> - (pv ! k) = {v. \<forall>i < Suc k. v \<notin> pv ! i}"
    by (auto simp: less_Suc_eq)
  moreover have "c div 2 ^ k div 2 = c div 2 ^ Suc k"
    by (metis div_mult2_eq mult.commute power_Suc)
  ultimately show ?case using Suc m by simp
qed


lemma bits_decide_cube:
  assumes "bits_decide b k"
  shows "(\<forall>i < k. b i m = b i c) \<longleftrightarrow> m = c"
  using assms unfolding bits_decide_def by blast

lemma moduloInc_binary_sem:
  fixes enc :: "nat \<Rightarrow> 'm"
  assumes n: "0 < n" and d: "bits_decide b (num_of_bits n)"
    and e: "\<forall>j < n. \<forall>k < num_of_bits n. b k (enc j) \<longleftrightarrow> odd (j div 2 ^ k)"
  shows "\<exists>T. moduloInc_binary b n =
             (T, (jx_cube (enc 0) :: ('i, 'o, 'm) bdd),
              map (jx_ps_var b) [0..<num_of_bits n], map (jx_ns_var b) [0..<num_of_bits n]) \<and>
           (\<forall>j < n. bdd_cofactor T (jx_cube (enc j)) = jx_ncube (enc ((j + 1) mod n)))"
proof -
  let ?nb = "num_of_bits n"
  let ?pv = "map (jx_ps_var b) [0..<?nb] :: ('i, 'o, 'm) bdd list"
  let ?nv = "map (jx_ns_var b) [0..<?nb] :: ('i, 'o, 'm) bdd list"
  let ?t = "{v. \<forall>i < ?nb. v \<in> ?nv ! i \<longleftrightarrow> ((\<forall>l < i. v \<in> ?pv ! l) \<noteq> (v \<in> ?pv ! i))}"
  let ?rc = "{v. \<forall>i < ?nb. v \<in> ?pv ! i \<longleftrightarrow> odd ((n - 1) div 2 ^ i)}"
  let ?rs = "{v. \<forall>i < ?nb. v \<notin> ?nv ! i}"
  let ?ss = "{v. \<forall>i < ?nb. v \<notin> ?pv ! i}"
  let ?T = "(?rc \<union> ?t) \<inter> (- ?rc \<union> ?rs)"
  have pvi: "v \<in> ?pv ! i \<longleftrightarrow> b i (snd (snd (fst v)))" if "i < ?nb" for i v
    using that by (simp add: jx_ps_var_def)
  have nvi: "v \<in> ?nv ! i \<longleftrightarrow> b i (snd (snd (snd v)))" if "i < ?nb" for i v
    using that by (simp add: jx_ns_var_def)
  have e0: "b i (enc 0) = False" if "i < ?nb" for i using e n that by simp
  have en: "b i (enc (n - 1)) = odd ((n - 1) div 2 ^ i)" if "i < ?nb" for i
    using e n that by simp
  have ss: "?ss = jx_cube (enc 0)"
  proof (rule set_eqI)
    fix v :: "('i, 'o, 'm) valuation"
    have "v \<in> ?ss \<longleftrightarrow> (\<forall>i < ?nb. b i (snd (snd (fst v))) = b i (enc 0))"
      using pvi e0 by auto
    then show "v \<in> ?ss \<longleftrightarrow> v \<in> jx_cube (enc 0)"
      unfolding bits_decide_cube[OF d] by (simp add: jx_cube_def)
  qed
  have rs: "v \<in> ?rs \<longleftrightarrow> snd (snd (snd v)) = enc 0" for v :: "('i, 'o, 'm) valuation"
  proof -
    have "v \<in> ?rs \<longleftrightarrow> (\<forall>i < ?nb. b i (snd (snd (snd v))) = b i (enc 0))"
      using nvi e0 by auto
    then show ?thesis unfolding bits_decide_cube[OF d] .
  qed
  have rc: "v \<in> ?rc \<longleftrightarrow> snd (snd (fst v)) = enc (n - 1)" for v :: "('i, 'o, 'm) valuation"
  proof -
    have "v \<in> ?rc \<longleftrightarrow> (\<forall>i < ?nb. b i (snd (snd (fst v))) = b i (enc (n - 1)))"
      using pvi en by auto
    then show ?thesis unfolding bits_decide_cube[OF d] .
  qed
  have t: "v \<in> ?t \<longleftrightarrow> snd (snd (snd v)) = enc (Suc j)"
    if j: "Suc j < n" and p: "snd (snd (fst v)) = enc j" for v :: "('i, 'o, 'm) valuation" and j
  proof -
    from j have j': "j < n" by simp
    have "((\<forall>l < i. v \<in> ?pv ! l) \<noteq> (v \<in> ?pv ! i)) \<longleftrightarrow> b i (enc (Suc j))" if i: "i < ?nb" for i
    proof -
      have "(\<forall>l < i. v \<in> ?pv ! l) \<longleftrightarrow> (\<forall>l < i. odd (j div 2 ^ l))"
        using pvi p e j' i by auto
      moreover have "v \<in> ?pv ! i \<longleftrightarrow> odd (j div 2 ^ i)" using pvi[OF i] p e j' i by auto
      moreover have "b i (enc (Suc j)) \<longleftrightarrow> odd (Suc j div 2 ^ i)" using e j i by auto
      ultimately show ?thesis unfolding succ_bits by simp
    qed
    then have "v \<in> ?t \<longleftrightarrow> (\<forall>i < ?nb. b i (snd (snd (snd v))) = b i (enc (Suc j)))"
      using nvi by auto
    then show ?thesis unfolding bits_decide_cube[OF d] .
  qed
  have inj: "j = n - 1" if "j < n" "enc j = enc (n - 1)" for j
  proof -
    from that(1) num_of_bits_bound[of n] have "j < 2 ^ ?nb" "n - 1 < 2 ^ ?nb" by simp_all
    moreover have "\<forall>i < ?nb. odd (j div 2 ^ i) = odd ((n - 1) div 2 ^ i)"
    proof (intro allI impI)
      fix i assume i: "i < ?nb"
      from e that(1) i have "odd (j div 2 ^ i) = b i (enc j)" by simp
      also have "\<dots> = b i (enc (n - 1))" unfolding that(2) by (rule refl)
      also have "\<dots> = odd ((n - 1) div 2 ^ i)" by (rule en[OF i])
      finally show "odd (j div 2 ^ i) = odd ((n - 1) div 2 ^ i)" .
    qed
    ultimately show ?thesis by (rule bits_determine)
  qed
  have p: "snd (snd (fst (set_ps_jx c v))) = c"
    and q: "snd (snd (snd (set_ps_jx c v))) = snd (snd (snd v))"
    for c and v :: "('i, 'o, 'm) valuation"
    by (cases v; auto)+
  have cof: "bdd_cofactor ?T (jx_cube (enc j)) = jx_ncube (enc ((j + 1) mod n))" if j: "j < n" for j
  proof (cases "j = n - 1")
    case True
    with n have m: "(j + 1) mod n = 0" by simp
    have "set_ps_jx (enc j) v \<in> ?T \<longleftrightarrow> snd (snd (snd v)) = enc 0" for v :: "('i, 'o, 'm) valuation"
      unfolding Int_iff Un_iff Compl_iff rc rs p q using True by simp
    then show ?thesis unfolding bdd_cofactor_cube m by (auto simp: jx_ncube_def)
  next
    case False
    with j have sj: "Suc j < n" by simp
    then have m: "(j + 1) mod n = Suc j" by simp
    from False inj[OF j] have ne: "enc j \<noteq> enc (n - 1)" by blast
    have "set_ps_jx (enc j) v \<in> ?T \<longleftrightarrow> snd (snd (snd v)) = enc (Suc j)"
      for v :: "('i, 'o, 'm) valuation"
      unfolding Int_iff Un_iff Compl_iff rc rs t[OF sj p] p q using ne by simp
    then show ?thesis unfolding bdd_cofactor_cube m by (auto simp: jx_ncube_def)
  qed
  have "moduloInc_binary b n = (?T, ?ss, ?pv, ?nv)"
    unfolding moduloInc_binary_def generate_JX_vars_def Let_def split_conv inc_fold reset_fold
    by (rule refl)
  with ss cof show ?thesis by simp
qed

lemma cofactor_counter:
  fixes enc :: "nat \<Rightarrow> 'm"
  assumes inj: "\<And>j j'. j < n \<Longrightarrow> j' < n \<Longrightarrow> enc j = enc j' \<Longrightarrow> j = j'" and j: "j < n"
  shows "bdd_cofactor (\<Union>j' \<in> {0..<n::nat}. jx_cube (enc j') \<inter> jx_ncube (f j')) (jx_cube (enc j))
           = (jx_ncube (f j) :: ('i, 'o, 'm) bdd)"
proof -
  have p: "snd (snd (fst (set_ps_jx d v))) = d"
    and q: "snd (snd (snd (set_ps_jx d v))) = snd (snd (snd v))"
    for d and v :: "('i, 'o, 'm) valuation"
    by (cases v; auto)+
  have "set_ps_jx (enc j) v \<in> (\<Union>j' \<in> {0..<n}. jx_cube (enc j') \<inter> jx_ncube (f j'))
      \<longleftrightarrow> v \<in> jx_ncube (f j)" for v :: "('i, 'o, 'm) valuation"
  proof
    assume "set_ps_jx (enc j) v \<in> (\<Union>j' \<in> {0..<n}. jx_cube (enc j') \<inter> jx_ncube (f j'))"
    then obtain j' where j': "j' < n" "enc j = enc j'" "snd (snd (snd v)) = f j'"
      by (auto simp: jx_cube_def jx_ncube_def p q)
    from inj[OF j j'(1,2)] j'(3) show "v \<in> jx_ncube (f j)" by (simp add: jx_ncube_def)
  next
    assume "v \<in> jx_ncube (f j)"
    with j show "set_ps_jx (enc j) v \<in> (\<Union>j' \<in> {0..<n}. jx_cube (enc j') \<inter> jx_ncube (f j'))"
      by (auto simp: jx_cube_def jx_ncube_def p q)
  qed
  then show ?thesis unfolding bdd_cofactor_cube by blast
qed

lemma one_hot_fold:
  "k \<le> length vars \<Longrightarrow>
   fold (\<lambda>j st. if i = j then st \<inter> vars ! j else st \<inter> - (vars ! j)) [0..<k] st0 =
     st0 \<inter> {v. \<forall>j < k. v \<in> vars ! j \<longleftrightarrow> i = j}"
proof (induction k)
  case 0
  show ?case by simp
next
  case (Suc k)
  then show ?case by (auto simp: less_Suc_eq)
qed

lemma one_hot_state_ps:
  "one_hot_state (map (jx_ps_var b) [0..<n]) n i = {v. \<forall>j < n. b j (snd (snd (fst v))) \<longleftrightarrow> i = j}"
  unfolding one_hot_state_def by (subst one_hot_fold) (auto simp: jx_ps_var_def)

lemma one_hot_state_ns:
  "one_hot_state (map (jx_ns_var b) [0..<n]) n i = {v. \<forall>j < n. b j (snd (snd (snd v))) \<longleftrightarrow> i = j}"
  unfolding one_hot_state_def by (subst one_hot_fold) (auto simp: jx_ns_var_def)

lemma one_hot_cube:
  assumes d: "bits_decide b n" and e: "\<forall>j < n. \<forall>k < n. b k (enc j) \<longleftrightarrow> k = j" and i: "i < n"
  shows "{m. \<forall>j < n. b j m \<longleftrightarrow> i = j} = {enc i}"
proof -
  have "m = enc i" if "\<forall>j < n. b j m \<longleftrightarrow> i = j" for m
  proof -
    from that e i have "\<forall>j < n. b j m = b j (enc i)" by auto
    with d show ?thesis unfolding bits_decide_def by blast
  qed
  moreover from e i have "\<forall>j < n. b j (enc i) \<longleftrightarrow> i = j" by auto
  ultimately show ?thesis by blast
qed

lemma trans_fold:
  "fold (\<lambda>i t. t \<union> F i) [0..<k] t0 = t0 \<union> (\<Union>i \<in> {0..<k}. F i)"
  by (induction k) (auto simp: less_Suc_eq)


lemma one_hot_states:
  fixes enc :: "nat \<Rightarrow> 'm"
  assumes d: "bits_decide b n" and e: "\<forall>j < n. \<forall>k < n. b k (enc j) \<longleftrightarrow> k = j" and i: "i < n"
  shows "map (one_hot_state (map (jx_ps_var b) [0..<n]) n) [0..<n] ! i
           = (jx_cube (enc i) :: ('i, 'o, 'm) bdd)"
    and "map (one_hot_state (map (jx_ns_var b) [0..<n]) n) [0..<n] ! i
           = (jx_ncube (enc i) :: ('i, 'o, 'm) bdd)"
proof -
  have c: "(\<forall>j < n. b j m \<longleftrightarrow> i = j) \<longleftrightarrow> m = enc i" for m
    using one_hot_cube[OF d e i] by blast
  from i show "map (one_hot_state (map (jx_ps_var b) [0..<n]) n) [0..<n] ! i
           = (jx_cube (enc i) :: ('i, 'o, 'm) bdd)"
    by (simp add: one_hot_state_ps c jx_cube_def)
  from i show "map (one_hot_state (map (jx_ns_var b) [0..<n]) n) [0..<n] ! i
           = (jx_ncube (enc i) :: ('i, 'o, 'm) bdd)"
    by (simp add: one_hot_state_ns c jx_ncube_def)
qed

lemma moduloInc_one_hot_sem:
  fixes enc :: "nat \<Rightarrow> 'm"
  assumes n: "0 < n" and d: "bits_decide b n"
    and e: "\<forall>j < n. \<forall>k < n. b k (enc j) \<longleftrightarrow> k = j"
  shows "moduloInc_one_hot b n =
           ((\<Union>j \<in> {0..<n}. jx_cube (enc j) \<inter> jx_ncube (enc ((j + 1) mod n))),
            (jx_cube (enc 0) :: ('i, 'o, 'm) bdd),
            map (jx_ps_var b) [0..<n], map (jx_ns_var b) [0..<n])"
proof -
  let ?ps = "map (one_hot_state (map (jx_ps_var b) [0..<n]) n) [0..<n] :: ('i, 'o, 'm) bdd list"
  let ?ns = "map (one_hot_state (map (jx_ns_var b) [0..<n]) n) [0..<n] :: ('i, 'o, 'm) bdd list"
  let ?F = "\<lambda>j. jx_cube (enc j) \<inter> jx_ncube (enc ((j + 1) mod n)) :: ('i, 'o, 'm) bdd"
  from n obtain p where p: "n = Suc p" by (cases n) auto
  have ps: "?ps ! i = jx_cube (enc i)" if "i < n" for i
    by (rule one_hot_states(1)[OF d e that])
  have ns: "?ns ! i = jx_ncube (enc i)" if "i < n" for i
    by (rule one_hot_states(2)[OF d e that])
  have "(\<Union>i \<in> {0..<n - 1}. ?ps ! i \<inter> ?ns ! (i + 1)) = (\<Union>i \<in> {0..<n - 1}. ?F i)"
  proof (rule SUP_cong[OF refl])
    fix i assume "i \<in> {0..<n - 1}"
    then have i: "i < n" "i + 1 < n" by auto
    then have "(i + 1) mod n = i + 1" by simp
    then show "?ps ! i \<inter> ?ns ! (i + 1) = ?F i"
      unfolding ps[OF i(1)] ns[OF i(2)] by simp
  qed
  moreover have "?ps ! (n - 1) \<inter> ?ns ! 0 = ?F (n - 1)"
  proof -
    from n have "n - 1 < n" "(n - 1 + 1) mod n = 0" by simp_all
    then show ?thesis unfolding ps[OF \<open>n - 1 < n\<close>] ns[OF n] by simp
  qed
  moreover have "(\<Union>i \<in> {0..<n - 1}. ?F i) \<union> ?F (n - 1) = (\<Union>i \<in> {0..<n}. ?F i)"
    unfolding p by (simp add: atLeast0_lessThan_Suc Un_commute)
  moreover have "?ps ! 0 = jx_cube (enc 0)" by (rule ps[OF n])
  ultimately show ?thesis
    unfolding moduloInc_one_hot_def generate_JX_vars_def Let_def split_conv trans_fold
    by (simp del: ONE_def)
qed

text \<open>With such memory variables the fields \<open>transitionjx\<close>, \<open>initjx\<close>, \<open>jx_ps_vars\<close> and
  \<open>jx_ns_vars\<close> that \<open>calcWinningRegion\<close> stores are those of a counter modulo the number
  of guarantees, for the one-hot and for the binary encoding.\<close>

lemma calcWinningRegion_jx_ok:
  fixes S :: "('i, 'o, 'm) Specification"
  assumes cw: "calcWinningRegion marduk S = Some (Inr w)" and gs: "spec_guarantees S \<noteq> []"
    and mem: "memory_ok marduk (length (spec_guarantees S)) enc"
  shows "jx_ok w (length (spec_guarantees S)) enc"
proof -
  let ?n = "length (spec_guarantees S)"
  let ?b = "jx_bit marduk"
  let ?jx = "if one_hot marduk then moduloInc_one_hot ?b ?n else moduloInc_binary ?b ?n"
  from gs have n: "0 < ?n" by simp
  from cw gs have f: "transitionjx w = Some (fst ?jx)" "initjx w = Some (fst (snd ?jx))"
    "jx_ps_vars w = Some (fst (snd (snd ?jx)))" "jx_ns_vars w = Some (snd (snd (snd ?jx)))"
    by (auto simp: calcWinningRegion_def Let_def split: option.splits sum.splits)
  show ?thesis
  proof (cases "one_hot marduk")
    case True
    with mem have d: "bits_decide ?b ?n" and e: "\<forall>j < ?n. \<forall>k < ?n. ?b k (enc j) \<longleftrightarrow> k = j"
      by (simp_all add: memory_ok_def)
    have inj: "j = j'" if "j < ?n" "j' < ?n" "enc j = enc j'" for j j'
    proof -
      from e that(1) have "?b j (enc j)" by simp
      with that(3) have "?b j (enc j')" by simp
      with e that(1,2) show ?thesis by simp
    qed
    have "\<forall>j < ?n. bdd_cofactor (\<Union>j' \<in> {0..<?n}. jx_cube (enc j')
              \<inter> jx_ncube (enc ((j' + 1) mod ?n))) (jx_cube (enc j))
            = (jx_ncube (enc ((j + 1) mod ?n)) :: ('i, 'o, 'm) bdd)"
      using cofactor_counter[of ?n enc _ "\<lambda>j. enc ((j + 1) mod ?n)"] inj by blast
    with f True show ?thesis
      unfolding jx_ok_def by (simp add: moduloInc_one_hot_sem[OF n d e])
  next
    case False
    with mem have d: "bits_decide ?b (num_of_bits ?n)"
      and e: "\<forall>j < ?n. \<forall>k < num_of_bits ?n. ?b k (enc j) \<longleftrightarrow> odd (j div 2 ^ k)"
      by (simp_all add: memory_ok_def)
    from moduloInc_binary_sem[OF n d e] obtain T :: "('i, 'o, 'm) bdd" where
      T: "moduloInc_binary ?b ?n =
             (T, jx_cube (enc 0),
              map (jx_ps_var ?b) [0..<num_of_bits ?n], map (jx_ns_var ?b) [0..<num_of_bits ?n])"
      "\<forall>j < ?n. bdd_cofactor T (jx_cube (enc j)) = jx_ncube (enc ((j + 1) mod ?n))"
      by blast
    with f False show ?thesis unfolding jx_ok_def by simp
  qed
qed

lemma memory_ok_marduk_bit: "memory_ok marduk_bit (length (spec_guarantees game_two)) enc_bit"
proof -
  have l: "length (spec_guarantees game_two) = 2" by (simp add: game_two_def)
  have nb: "num_of_bits 2 = 1" by code_simp
  have o: "one_hot marduk_bit = False" and b: "jx_bit marduk_bit = (\<lambda>k m. m)"
    by (simp_all add: marduk_bit_def)
  have "bits_decide (\<lambda>(k::nat) (m::bool). m) 1" by (simp add: bits_decide_def)
  moreover have "\<forall>j < (2::nat). \<forall>k < (1::nat). enc_bit j \<longleftrightarrow> odd (j div 2 ^ k)"
    by (auto simp: enc_bit_def less_2_cases_iff)
  ultimately show ?thesis unfolding memory_ok_def l nb o b by simp
qed

lemma memory_ok_marduk_unit: "memory_ok marduk_unit (length (spec_guarantees game_lost)) (\<lambda>j. ())"
  by (simp add: memory_ok_def marduk_unit_def game_lost_def bits_decide_def)

section \<open>The realizability test\<close>

text \<open>
  Claim C8.  \<open>isRealizable\<close> returns \<open>True\<close> if and only if the predicate
  \<open>(\<not> init1) \<or> \<exists> initial outputs. (init2 \<and> winningRegion)\<close> is the constant-true
  predicate, that is, if and only if for every valuation that satisfies \<open>init1\<close> some
  choice of the present output variables lies in \<open>init2\<close> and in the winning region.
  The call returns whenever \<open>initjx\<close> has been set.
\<close>

theorem isRealizable_iff:
  "(initjx w \<noteq> None \<longrightarrow> (\<exists>b w'. isRealizable w = Inr (b, w'))) \<and>
   (\<forall>b w'. isRealizable w = Inr (b, w') \<longrightarrow>
      b = (- init1 w \<union> exists_ps_out (init2 w \<inter> winningRegion w) = UNIV) \<and>
      b = (\<forall>v \<in> init1 w. \<exists>ob. set_ps_out ob v \<in> init2 w \<and> set_ps_out ob v \<in> winningRegion w))"
  by (auto simp: isRealizable_def Let_def exists_ps_out_def split: option.splits if_splits)

theorem isRealizable_iff_witness:
  "isRealizable (wr_ex out_high ONE ONE) =
     Inr (True, (wr_ex out_high ONE ONE)\<lparr>init1 := out_high, init2 := out_high,
                  init12 := out_high, init := Some out_high\<rparr>) \<and>
   (- init1 (wr_ex out_high ONE ONE) \<union>
      exists_ps_out (init2 (wr_ex out_high ONE ONE) \<inter>
                     winningRegion (wr_ex out_high ONE ONE)) = ONE) \<and>
   isRealizable (wr_ex out_high ONE (- out_high)) =
     Inr (False, wr_ex out_high ONE (- out_high)) \<and>
   (- init1 (wr_ex out_high ONE (- out_high)) \<union>
      exists_ps_out (init2 (wr_ex out_high ONE (- out_high)) \<inter>
                     winningRegion (wr_ex out_high ONE (- out_high))) \<noteq> ONE)"
proof -
  have e1: "isRealizable (wr_ex out_high ONE ONE) =
     Inr (True, (wr_ex out_high ONE ONE)\<lparr>init1 := out_high, init2 := out_high,
                  init12 := out_high, init := Some out_high\<rparr>)"
    by code_simp
  have e2: "isRealizable (wr_ex out_high ONE (- out_high)) =
     Inr (False, wr_ex out_high ONE (- out_high))"
    by code_simp
  from e1 e2 isRealizable_iff[of "wr_ex out_high ONE ONE"]
    isRealizable_iff[of "wr_ex out_high ONE (- out_high)"]
  show ?thesis by auto
qed

text \<open>
  Claim C10.  \<open>isRealizable\<close> changes the stored initial conditions only when it returns
  \<open>True\<close> while \<open>init12\<close> is not contained in the winning region: then \<open>init1\<close>, \<open>init2\<close>
  and \<open>init12\<close> are conjoined with the winning region and \<open>init\<close> is rebuilt as the
  product of the new \<open>init12\<close> and \<open>initjx\<close>.  In every other case in which it returns
  (the answer is \<open>False\<close>, or all of \<open>init12\<close> is winning) the object is left as it was.
  The winning region is never changed.
\<close>

theorem isRealizable_frame:
  assumes "isRealizable w = Inr (b, w')"
  shows "winningRegion w' = winningRegion w \<and>
         (if b \<and> \<not> init12 w \<subseteq> winningRegion w
          then \<exists>ijx. initjx w = Some ijx \<and>
                 w' = w\<lparr>init1 := init1 w \<inter> winningRegion w,
                         init2 := init2 w \<inter> winningRegion w,
                         init12 := init12 w \<inter> winningRegion w,
                         init := Some (init12 w \<inter> winningRegion w \<inter> ijx)\<rparr>
          else w' = w)"
  using assms
  by (auto simp: isRealizable_def Let_def split: option.splits if_splits)

theorem isRealizable_frame_witness:
  "isRealizable (wr_ex out_high ONE ONE) =
     Inr (True, (wr_ex out_high ONE ONE)\<lparr>init1 := out_high, init2 := out_high,
                  init12 := out_high, init := Some out_high\<rparr>) \<and>
   winningRegion ((wr_ex out_high ONE ONE)\<lparr>init1 := out_high, init2 := out_high,
                  init12 := out_high, init := Some out_high\<rparr>) = out_high \<and>
   isRealizable (wr_ex out_high ONE (- out_high)) =
     Inr (False, wr_ex out_high ONE (- out_high)) \<and>
   isRealizable (wr_ex ONE ONE out_high) = Inr (True, wr_ex ONE ONE out_high)"
proof -
  have e1: "isRealizable (wr_ex out_high ONE ONE) =
     Inr (True, (wr_ex out_high ONE ONE)\<lparr>init1 := out_high, init2 := out_high,
                  init12 := out_high, init := Some out_high\<rparr>)"
    by code_simp
  have e2: "isRealizable (wr_ex out_high ONE (- out_high)) =
     Inr (False, wr_ex out_high ONE (- out_high))"
    by code_simp
  have e3: "isRealizable (wr_ex ONE ONE out_high) = Inr (True, wr_ex ONE ONE out_high)"
    by code_simp
  from e1 e2 e3 isRealizable_frame[OF e1] isRealizable_frame[OF e2] isRealizable_frame[OF e3]
  show ?thesis by (simp add: wr_ex_def)
qed

section \<open>The solver\<close>

text \<open>
  Claim C1.  For every game over finitely many variables \<open>calcWinningRegion\<close> returns,
  and the winning region it returns is the one the pseudocode of section 4.2 of the
  specification prescribes: an outer fixpoint on \<open>Z\<close> from all states, repeated until
  \<open>Z\<close> is unchanged; for each guarantee in ascending order a fixpoint on \<open>Y\<close> from the
  empty set with the seed \<open>(guarantee[j] \<and> coax(Z)) \<or> coax(Y)\<close>; for each assumption in
  ascending order a fixpoint on \<open>X\<close> from the current \<open>Z\<close> with the step
  \<open>X = seed \<or> (\<not>assumption[i] \<and> coax(X))\<close>; \<open>Y\<close> the union of the converged \<open>X\<close>; and
  \<open>Z\<close> replaced by the converged \<open>Y\<close> after each guarantee.
\<close>

theorem calcWinningRegion_spec_solve:
  fixes S :: "('i::finite, 'o::finite, 'm::finite) Specification"
  shows "\<exists>w. calcWinningRegion marduk S = Some (Inr w) \<and>
              spec_solve S = Some (winningRegion w)"
  using calcWinningRegion_code[of marduk S] spec_solve_Wfix[of S] by auto

theorem calcWinningRegion_spec_solve_witness:
  "map_option (map_sum id winningRegion) (calcWinningRegion marduk_unit game_keep)
     = Some (Inr out_high) \<and>
   spec_solve game_keep = Some out_high"
proof -
  have e: "map_option (map_sum id winningRegion) (calcWinningRegion marduk_unit game_keep)
     = Some (Inr out_high)"
    by code_simp
  from calcWinningRegion_spec_solve[of marduk_unit game_keep] obtain w where
    "calcWinningRegion marduk_unit game_keep = Some (Inr w)"
    "spec_solve game_keep = Some (winningRegion w)" by blast
  with e show ?thesis by simp
qed

text \<open>
  Claim C2.  Overwriting \<open>Z\<close> after each guarantee, as \<open>calcWinningRegion\<close> does, ends
  with the same winning region as the textbook iteration, which solves every guarantee
  of a round against the \<open>Z\<close> the round started with and replaces \<open>Z\<close> once per round by
  the conjunction of the results: for every game over finitely many variables both
  iterations end, and with the same set.
\<close>

theorem calcWinningRegion_textbook_solve:
  fixes S :: "('i::finite, 'o::finite, 'm::finite) Specification"
  shows "\<exists>w. calcWinningRegion marduk S = Some (Inr w) \<and>
              textbook_solve S = Some (winningRegion w)"
  using calcWinningRegion_code[of marduk S] textbook_solve_Wfix[of S] by auto

theorem calcWinningRegion_textbook_solve_witness:
  "map_option (map_sum id winningRegion) (calcWinningRegion marduk_unit game_both)
     = Some (Inr {}) \<and>
   textbook_solve game_both = Some {} \<and>
   spec_for_j game_both [0] ONE = Some out_high \<and>
   textbook_for_j game_both ONE [0, 1] ONE = Some {}"
proof -
  have e: "map_option (map_sum id winningRegion) (calcWinningRegion marduk_unit game_both)
     = Some (Inr {})"
    by code_simp
  have f: "spec_for_j game_both [0] ONE = Some out_high"
    "textbook_for_j game_both ONE [0, 1] ONE = Some {}"
    by code_simp+
  from calcWinningRegion_textbook_solve[of marduk_unit game_both] obtain w where
    "calcWinningRegion marduk_unit game_both = Some (Inr w)"
    "textbook_solve game_both = Some (winningRegion w)" by blast
  with e f show ?thesis by simp
qed

section \<open>Games without assumptions\<close>

text \<open>
  Claim C5 says that with no assumptions the fixpoint on \<open>X\<close> starts at and stays at the
  current \<open>Z\<close>, so that the value contributed to \<open>Y\<close> is \<open>Z\<close>.  The code does something
  else: with \<open>m = 0\<close> the body of \<open>for i in range(0,m)\<close> never runs, no \<open>X\<close> is computed,
  and \<open>Y\<close> stays empty.  In \<open>game_no_assumption\<close> the first pass over the assumptions,
  entered with \<open>Z\<close> all states, leaves \<open>Y\<close> empty, and the winning region is empty.
\<close>

theorem no_assumption_counterexample:
  "map_option fst
     (i_loop game_no_assumption ONE
        ((spec_guarantees game_no_assumption ! 0 \<inter> coax game_no_assumption ONE)
           \<union> coax game_no_assumption ZERO)
        [0..<length (spec_assumptions game_no_assumption)] ZERO []) = Some {} \<and>
   (ONE :: (unit, bool, unit) bdd) \<noteq> {} \<and>
   map_option (map_sum id winningRegion) (calcWinningRegion marduk_unit game_no_assumption)
     = Some (Inr {})"
  by code_simp

text \<open>
  Claim C5, amended.  In a game with no assumptions the loop over the assumptions
  returns at once with \<open>Y\<close> and the row of \<open>xArray\<close> as they were, so every loop on \<open>Y\<close>
  ends after one pass with \<open>Y\<close> empty and one recorded (empty) row, which is removed
  again.  \<open>calcWinningRegion\<close> returns the empty winning region if there is a guarantee
  (all states if there is none), and \<open>xArray[j]\<close> and \<open>yArray[j]\<close> are empty
  dictionaries for every guarantee \<open>j\<close>.
\<close>

theorem no_assumption_solver:
  fixes S :: "('i::finite, 'o::finite, 'm::finite) Specification"
  assumes "spec_assumptions S = []"
  shows "i_loop S z start [0..<length (spec_assumptions S)] y xr = Some (y, xr) \<and>
         y_loop S z j 0 ONE ZERO [] [] = Some (1, ZERO, [(0, [])], [(0, ZERO)]) \<and>
         (\<exists>w. calcWinningRegion marduk S = Some (Inr w) \<and>
              winningRegion w = (if spec_guarantees S = [] then ONE else ZERO) \<and>
              (\<forall>j < length (spec_guarantees S).
                  map_of (xArray w) j = Some [] \<and> map_of (yArray w) j = Some []))"
proof -
  have 1: "i_loop S z start [0..<length (spec_assumptions S)] y xr = Some (y, xr)"
    using assms by simp
  have "y_loop S z j 0 ONE ZERO [] [] = y_loop S z j 1 ZERO ZERO [(0, [])] [(0, ZERO)]"
    using assms by (subst y_loop.simps) simp
  also have "\<dots> = Some (1, ZERO, [(0, [])], [(0, ZERO)])"
    by (subst y_loop.simps) simp
  finally have 2: "y_loop S z j 0 ONE ZERO [] [] = Some (1, ZERO, [(0, [])], [(0, ZERO)])" .
  have W: "Wfix S = (if spec_guarantees S = [] then ONE else ZERO)"
  proof (cases "spec_guarantees S = []")
    case True
    then show ?thesis by (simp add: Wfix_no_guarantees)
  next
    case False
    then have "0 < length (spec_guarantees S)" by simp
    from Yfix_Wfix[OF this] assms False show ?thesis by (simp add: Yfix_no_assumptions)
  qed
  from calcWinningRegion_code[of marduk S] obtain w where
    w: "calcWinningRegion marduk S = Some (Inr w)" "winningRegion w = Wfix S"
    "\<forall>j < length (spec_guarantees S).
        map_of (xArray w) j = Some (x_rows S (Wfix S) j) \<and>
        map_of (yArray w) j = Some (y_rows S (Wfix S) j)" by blast
  from w(3) assms have "\<forall>j < length (spec_guarantees S).
        map_of (xArray w) j = Some [] \<and> map_of (yArray w) j = Some []"
    by (simp add: x_rows_def y_rows_def Ycount_no_assumptions)
  with w(1,2) W have 3: "\<exists>w. calcWinningRegion marduk S = Some (Inr w) \<and>
              winningRegion w = (if spec_guarantees S = [] then ONE else ZERO) \<and>
              (\<forall>j < length (spec_guarantees S).
                  map_of (xArray w) j = Some [] \<and> map_of (yArray w) j = Some [])"
    by auto
  from 1 2 3 show ?thesis by blast
qed

theorem no_assumption_solver_witness:
  "spec_assumptions game_no_assumption = [] \<and>
   y_loop game_no_assumption ONE 0 0 ONE ZERO [] [] = Some (1, ZERO, [(0, [])], [(0, ZERO)]) \<and>
   map_option (map_sum id (\<lambda>w. (winningRegion w, xArray w, yArray w)))
     (calcWinningRegion marduk_unit game_no_assumption) = Some (Inr ({}, [(0, [])], [(0, [])]))"
proof -
  have a: "spec_assumptions game_no_assumption = []" by (simp add: game_no_assumption_def)
  have e: "map_option (map_sum id (\<lambda>w. (winningRegion w, xArray w, yArray w)))
     (calcWinningRegion marduk_unit game_no_assumption) = Some (Inr ({}, [(0, [])], [(0, [])]))"
    by code_simp
  from no_assumption_solver[OF a, of ONE undefined undefined undefined 0 marduk_unit] a e
  show ?thesis by simp
qed

section \<open>The recorded trace\<close>

text \<open>
  Claim C6 says that the retained trace has one entry \<open>Y[j][r]\<close> for every pass \<open>r\<close> of
  the final processing of guarantee \<open>j\<close>, the last pass included.  The code removes the
  entry of the last pass again (\<open>pop(r-1)\<close>).  In \<open>game_free\<close> the winning region is all
  states; the loop on \<open>Y\<close> for guarantee 0, entered with that \<open>Z\<close>, makes 3 passes and
  records 3 rows in each array, and the arrays that remain hold 2.
\<close>

theorem trace_counterexample:
  "map_option (map_sum id winningRegion) (calcWinningRegion marduk_unit game_free)
     = Some (Inr ONE) \<and>
   map_option (\<lambda>(r, y, xj, yj). (r, length xj, length yj))
     (y_loop game_free ONE 0 0 ONE ZERO [] []) = Some (3, 3, 3) \<and>
   map_option (map_sum id (\<lambda>w. (map_option length (map_of (xArray w) 0),
                                 map_option length (map_of (yArray w) 0))))
     (calcWinningRegion marduk_unit game_free) = Some (Inr (Some 2, Some 2))"
  by code_simp

text \<open>
  Claim C6, amended.  When \<open>calcWinningRegion\<close> returns, the retained trace holds, for
  every guarantee \<open>j\<close>, the rows of the final processing of \<open>j\<close> except the row of its
  last pass.  The final processing of \<open>j\<close> is the loop on \<open>Y\<close> entered with \<open>Z\<close> the
  winning region (in the final round no guarantee changes \<open>Z\<close>).  It makes \<open>R \<ge> 1\<close>
  passes, ends with \<open>Y\<close> the winning region, and records the keys \<open>0, ..., R-1\<close> in
  \<open>yArray[j]\<close> and in \<open>xArray[j]\<close>, each row of \<open>xArray[j]\<close> with one entry for every
  assumption; \<open>yArray[j]\<close> and \<open>xArray[j]\<close> as returned are these dictionaries without
  their last entry.  There are no entries for other \<open>j\<close>.
\<close>

theorem calcWinningRegion_trace:
  fixes S :: "('i::finite, 'o::finite, 'm::finite) Specification"
  shows "\<exists>w. calcWinningRegion marduk S = Some (Inr w) \<and>
           (\<forall>j < length (spec_guarantees S).
              \<exists>R y xj yj.
                y_loop S (winningRegion w) j 0 ONE ZERO [] [] = Some (R, y, xj, yj) \<and>
                0 < R \<and> y = winningRegion w \<and>
                map fst yj = [0..<R] \<and> map fst xj = [0..<R] \<and>
                (\<forall>row \<in> snd ` set xj. map fst row = [0..<length (spec_assumptions S)]) \<and>
                map_of (yArray w) j = Some (butlast yj) \<and>
                map_of (xArray w) j = Some (butlast xj)) \<and>
           (\<forall>j. length (spec_guarantees S) \<le> j \<longrightarrow>
                map_of (xArray w) j = None \<and> map_of (yArray w) j = None)"
proof -
  from calcWinningRegion_code[of marduk S] obtain w where
    w: "calcWinningRegion marduk S = Some (Inr w)" "winningRegion w = Wfix S"
    "z_inv S (Wfix S)"
    "\<forall>j < length (spec_guarantees S).
        map_of (xArray w) j = Some (x_rows S (Wfix S) j) \<and>
        map_of (yArray w) j = Some (y_rows S (Wfix S) j)"
    "\<forall>j. length (spec_guarantees S) \<le> j \<longrightarrow>
        map_of (xArray w) j = None \<and> map_of (yArray w) j = None" by blast
  have "\<exists>R y xj yj.
          y_loop S (winningRegion w) j 0 ONE ZERO [] [] = Some (R, y, xj, yj) \<and>
          0 < R \<and> y = winningRegion w \<and>
          map fst yj = [0..<R] \<and> map fst xj = [0..<R] \<and>
          (\<forall>row \<in> snd ` set xj. map fst row = [0..<length (spec_assumptions S)]) \<and>
          map_of (yArray w) j = Some (butlast yj) \<and>
          map_of (xArray w) j = Some (butlast xj)"
    if j: "j < length (spec_guarantees S)" for j
  proof -
    let ?c = "Ycount S (Wfix S) j"
    let ?xj = "map (x_row S (Wfix S) j) [0..<Suc ?c]"
    let ?yj = "map (y_row S (Wfix S) j) [0..<Suc ?c]"
    have run: "y_loop S (winningRegion w) j 0 ONE ZERO [] [] =
        Some (Suc ?c, Wfix S, ?xj, ?yj)"
      using y_loop_code[OF w(3), of j] w(2) Yfix_Wfix[OF j] by simp
    have ky: "map fst ?yj = [0..<Suc ?c]"
      by (simp add: y_row_def comp_def map_idI del: upt_Suc)
    have kx: "map fst ?xj = [0..<Suc ?c]"
      by (simp add: x_row_def comp_def map_idI del: upt_Suc)
    have rows: "\<forall>row \<in> snd ` set ?xj. map fst row = [0..<length (spec_assumptions S)]"
      by (auto simp: x_row_def comp_def map_idI simp del: upt_Suc)
    have by': "butlast ?yj = y_rows S (Wfix S) j" by (simp add: y_rows_def)
    have bx: "butlast ?xj = x_rows S (Wfix S) j" by (simp add: x_rows_def)
    from run ky kx rows by' bx w(2,4) j show ?thesis
      by (intro exI[of _ "Suc ?c"] exI[of _ "Wfix S"] exI[of _ ?xj] exI[of _ ?yj])
         (simp del: upt_Suc)
  qed
  with w(1,5) show ?thesis by blast
qed

theorem calcWinningRegion_trace_witness:
  "y_loop game_keep out_high 0 0 ONE ZERO [] [] =
     Some (2, out_high, [(0, [(0, out_high)]), (1, [(0, out_high)])],
           [(0, out_high), (1, out_high)]) \<and>
   map_option (map_sum id (\<lambda>w. (winningRegion w, xArray w, yArray w)))
     (calcWinningRegion marduk_unit game_keep) =
     Some (Inr (out_high, [(0, [(0, [(0, out_high)])])], [(0, [(0, out_high)])]))"
proof -
  have e: "y_loop game_keep out_high 0 0 ONE ZERO [] [] =
     Some (2, out_high, [(0, [(0, out_high)]), (1, [(0, out_high)])],
           [(0, out_high), (1, out_high)])"
    "map_option (map_sum id (\<lambda>w. (winningRegion w, xArray w, yArray w)))
     (calcWinningRegion marduk_unit game_keep) =
     Some (Inr (out_high, [(0, [(0, [(0, out_high)])])], [(0, [(0, out_high)])]))"
    by code_simp+
  from calcWinningRegion_trace[of marduk_unit game_keep] e show ?thesis by simp
qed

section \<open>Monotonicity of the iterates\<close>

text \<open>
  Claim C9.  Throughout \<open>calcWinningRegion\<close>, on every game over finitely many
  variables: at every head of the loop on \<open>x\<close> that a run reaches and at which the loop
  goes on, the next value of \<open>x\<close> is a subset of the present one; at every head of the
  loop on \<open>y\<close> at which the loop goes on, the pass over the assumptions returns and the
  next value of \<open>y\<close> is a superset of the present one; and \<open>z\<close> never grows: the
  value assigned to \<open>z\<close> after a guarantee is a subset of the \<open>z\<close> before, and so is
  the \<open>z\<close> after a whole round.
\<close>

theorem iterates_monotone:
  fixes S :: "('i::finite, 'o::finite, 'm::finite) Specification"
  shows
    "(reach S (At_x start a old_x x) \<and> x \<noteq> old_x \<longrightarrow>
        start \<union> ((- a) \<inter> coax S x) \<subseteq> x) \<and>
     (reach S (At_y z j r old_y y xj yj) \<and> y \<noteq> old_y \<longrightarrow>
        (\<exists>y' xr. i_loop S z ((spec_guarantees S ! j \<inter> coax S z) \<union> coax S y)
                    [0..<length (spec_assumptions S)] ZERO [] = Some (y', xr) \<and> y \<subseteq> y')) \<and>
     (reach S (At_j (j1 # js) z1 xA1 yA1) \<longrightarrow>
        (\<exists>r1 y1 xj1 yj1. y_loop S z1 j1 0 ONE ZERO [] [] = Some (r1, y1, xj1, yj1) \<and>
                          y1 \<subseteq> z1)) \<and>
     (reach S (At_z old_z z2 xA2 yA2) \<and> z2 \<noteq> old_z \<longrightarrow>
        (\<exists>z3 xA3 yA3. j_loop S [0..<length (spec_guarantees S)] z2 xA2 yA2
                         = Some (Inr (z3, xA3, yA3)) \<and> z3 \<subseteq> z2))"
proof (intro conjI impI)
  assume "reach S (At_x start a old_x x) \<and> x \<noteq> old_x"
  with reach_point_inv[of S "At_x start a old_x x"]
  show "start \<union> ((- a) \<inter> coax S x) \<subseteq> x" by (simp add: x_step_def)
next
  assume "reach S (At_y z j r old_y y xj yj) \<and> y \<noteq> old_y"
  with reach_point_inv[of S "At_y z j r old_y y xj yj"]
  obtain k where inv: "z_inv S z" and k: "y = Yiter S z j k" by auto
  from k have "y \<subseteq> z" by (simp add: Yiter_subset)
  from i_loop_Ystep[OF inv this, of j] k Yiter_chain[of S z j k]
  show "\<exists>y' xr. i_loop S z ((spec_guarantees S ! j \<inter> coax S z) \<union> coax S y)
                    [0..<length (spec_assumptions S)] ZERO [] = Some (y', xr) \<and> y \<subseteq> y'"
    by (simp add: y_start_def Yiter_Suc)
next
  assume "reach S (At_j (j1 # js) z1 xA1 yA1)"
  with reach_point_inv[of S "At_j (j1 # js) z1 xA1 yA1"] have "z_inv S z1" by simp
  from y_loop_code[OF this, of j1] Yfix_subset[of S z1 j1]
  show "\<exists>r1 y1 xj1 yj1. y_loop S z1 j1 0 ONE ZERO [] [] = Some (r1, y1, xj1, yj1) \<and> y1 \<subseteq> z1"
    by simp
next
  assume "reach S (At_z old_z z2 xA2 yA2) \<and> z2 \<noteq> old_z"
  with reach_point_inv[of S "At_z old_z z2 xA2 yA2"] have "z_inv S z2" by simp
  from j_loop_code[OF this, of "[0..<length (spec_guarantees S)]" xA2 yA2]
    Zround_subset[of S "[0..<length (spec_guarantees S)]" z2]
  show "\<exists>z3 xA3 yA3. j_loop S [0..<length (spec_guarantees S)] z2 xA2 yA2
                         = Some (Inr (z3, xA3, yA3)) \<and> z3 \<subseteq> z2"
    by auto
qed

theorem iterates_monotone_witness:
  "reach game_keep (At_x out_high ONE ONE out_high) \<and> out_high \<noteq> (ONE :: (unit, bool, unit) bdd) \<and>
   out_high \<union> ((- ONE) \<inter> coax game_keep out_high) \<subseteq> out_high \<and>
   reach game_keep (At_y ONE 0 0 ONE ZERO [] []) \<and>
   i_loop game_keep ONE ((spec_guarantees game_keep ! 0 \<inter> coax game_keep ONE)
       \<union> coax game_keep ZERO) [0..<length (spec_assumptions game_keep)] ZERO []
     = Some (out_high, [(0, out_high)]) \<and>
   reach game_keep (At_j [0] ONE [] []) \<and>
   map_option fst (map_option snd (y_loop game_keep ONE 0 0 ONE ZERO [] [])) = Some out_high \<and>
   out_high \<subseteq> (ONE :: (unit, bool, unit) bdd) \<and>
   reach game_keep (At_z ZERO ONE [] []) \<and>
   j_loop game_keep [0..<length (spec_guarantees game_keep)] ONE [] []
     = Some (Inr (out_high, [(0, [(0, [(0, out_high)])])], [(0, [(0, out_high)])]))"
proof -
  have ne: "(ONE :: (unit, bool, unit) bdd) \<noteq> ZERO" "(ZERO :: (unit, bool, unit) bdd) \<noteq> ONE"
    by simp_all
  have n: "[0..<length (spec_guarantees game_keep)] = [0]"
    and m: "[0..<length (spec_assumptions game_keep)] = [0]"
    and a: "spec_assumptions game_keep ! 0 = ONE"
    by (simp_all add: game_keep_def)
  have s: "(spec_guarantees game_keep ! 0 \<inter> coax game_keep ONE) \<union> coax game_keep ZERO = out_high"
    by code_simp
  have x1: "out_high \<union> ((- ONE) \<inter> coax game_keep ONE) = out_high"
    by code_simp
  have oh: "out_high \<noteq> (ONE :: (unit, bool, unit) bdd)"
    by code_simp
  have il: "i_loop game_keep ONE ((spec_guarantees game_keep ! 0 \<inter> coax game_keep ONE)
       \<union> coax game_keep ZERO) [0..<length (spec_assumptions game_keep)] ZERO []
     = Some (out_high, [(0, out_high)])"
    by code_simp
  have yl: "map_option fst (map_option snd (y_loop game_keep ONE 0 0 ONE ZERO [] [])) = Some out_high"
    by code_simp
  have jl: "j_loop game_keep [0..<length (spec_guarantees game_keep)] ONE [] []
     = Some (Inr (out_high, [(0, [(0, [(0, out_high)])])], [(0, [(0, out_high)])]))"
    by code_simp
  have r0: "reach game_keep (At_z ZERO ONE [] [])" by (rule reach_init)
  have r1: "reach game_keep (At_j [0] ONE [] [])"
    using reach_round[OF r0 ne(1)] n by simp
  have r2: "reach game_keep (At_y ONE 0 0 ONE ZERO [] [])"
    by (rule reach_enter_y[OF r1])
  have r3: "reach game_keep (At_i ONE out_high [0] ZERO [])"
    using reach_enter_i[OF r2 ne(2)] s m by (simp del: ONE_def ZERO_def)
  have r4: "reach game_keep (At_x out_high ONE ZERO ONE)"
    using reach_enter_x[OF r3] a by (simp del: ONE_def ZERO_def)
  have r5: "reach game_keep (At_x out_high ONE ONE out_high)"
    using reach_x[OF r4 ne(1)] x1 by (simp del: ONE_def ZERO_def)
  from iterates_monotone[of game_keep out_high ONE ONE out_high ONE 0 0 ONE ZERO "[]" "[]"
      0 "[]" ONE "[]" "[]" ZERO ONE "[]" "[]"]
    r5 oh r2 ne r1 r0 il yl jl
  show ?thesis by (auto simp del: ONE_def ZERO_def)
qed

section \<open>Rule 1 of the strategy\<close>

text \<open>
  Claim C4 says that every move of the Rule-1 component sets the next memory value to 0,
  and that the component holds the moves from winning states for which no finer
  progress is recorded.  The code does something else: a move of \<open>_calc_rho1\<close> for the
  memory value \<open>j\<close> starts where \<open>guarantees[j]\<close> holds and advances the memory to
  \<open>(j + 1) mod n\<close>.  For \<open>game_two\<close> (two guarantees; memory bit clear for 0, set for 1)
  the component is the set of valuations in which the output bit is set and the next
  memory bit differs from the present one: from memory 0 the move to memory 1 is in it
  and the move to memory 0 is not.
\<close>

theorem rule1_counterexample:
  "map_option (map_sum id (\<lambda>w. calc_rho1 w 2)) (calcWinningRegion marduk_bit game_two)
     = Some (Inr (Inr {v. fst (snd (fst v)) \<and> snd (snd (snd v)) \<noteq> snd (snd (fst v))})) \<and>
   (((), True, False), ((), True, True))
     \<in> {v :: (unit, bool, bool) valuation. fst (snd (fst v)) \<and> snd (snd (snd v)) \<noteq> snd (snd (fst v))} \<and>
   (((), True, False), ((), True, False))
     \<notin> {v :: (unit, bool, bool) valuation. fst (snd (fst v)) \<and> snd (snd (snd v)) \<noteq> snd (snd (fst v))}"
  by code_simp

text \<open>
  Claim C4, amended.  For a memory counter modulo \<open>n > 0\<close> with the encoding \<open>enc\<close>,
  \<open>_calc_rho1\<close> returns, and its result contains exactly the valuations in which, for
  some \<open>j < n\<close>, the present memory is \<open>enc j\<close>, \<open>guarantees[j]\<close> holds and the next memory
  is \<open>enc ((j + 1) mod n)\<close>, and which lie in the winning region, are consistent with
  the combined transition relation \<open>transition12\<close> and lead into the winning region
  (the valuation with present and next input and output exchanged lies in it).
\<close>

theorem rule1_moves:
  assumes "jx_ok w n enc" "n = length (guarantees w)" "0 < n"
  shows "\<exists>rho1. calc_rho1 w n = Inr rho1 \<and>
           (\<forall>v. v \<in> rho1 \<longleftrightarrow>
              (\<exists>j < n. snd (snd (fst v)) = enc j \<and> v \<in> guarantees w ! j \<and>
                        snd (snd (snd v)) = enc ((j + 1) mod n)) \<and>
              v \<in> winningRegion w \<and> v \<in> transition12 w \<and> swap_io v \<in> winningRegion w)"
  unfolding calc_rho1_sem[OF assms]
  by (auto simp: jx_cube_def jx_ncube_def swapVariables_io_def)

theorem rule1_moves_witness:
  "jx_ok wr_two 2 enc_bit \<and> length (guarantees wr_two) = 2 \<and>
   calc_rho1 wr_two 2 = Inr {v. fst (snd (fst v)) \<and> snd (snd (snd v)) \<noteq> snd (snd (fst v))} \<and>
   enc_bit 0 = False \<and> enc_bit ((0 + 1) mod 2) = True \<and>
   (((), True, False), ((), True, True)) \<in> guarantees wr_two ! 0 \<and>
   (((), True, False), ((), True, True)) \<in> winningRegion wr_two \<and>
   (((), True, False), ((), True, True)) \<in> transition12 wr_two \<and>
   swap_io (((), True, False), ((), True, True)) \<in> winningRegion wr_two"
proof -
  have n: "2 = length (guarantees wr_two)" "0 < (2::nat)" by (simp_all add: wr_two_def)
  have e: "calc_rho1 wr_two 2 = Inr {v. fst (snd (fst v)) \<and> snd (snd (snd v)) \<noteq> snd (snd (fst v))}"
    by code_simp
  have m: "(((), True, False), ((), True, True))
      \<in> {v :: (unit, bool, bool) valuation. fst (snd (fst v)) \<and> snd (snd (snd v)) \<noteq> snd (snd (fst v))}"
    by simp
  from rule1_moves[OF jx_ok_wr_two n] obtain rho1 where
    r: "calc_rho1 wr_two 2 = Inr rho1" and
    c: "\<forall>v. v \<in> rho1 \<longleftrightarrow>
              (\<exists>j < 2. snd (snd (fst v)) = enc_bit j \<and> v \<in> guarantees wr_two ! j \<and>
                        snd (snd (snd v)) = enc_bit ((j + 1) mod 2)) \<and>
              v \<in> winningRegion wr_two \<and> v \<in> transition12 wr_two \<and>
              swap_io v \<in> winningRegion wr_two"
    by blast
  from r e have "rho1 = {v. fst (snd (fst v)) \<and> snd (snd (snd v)) \<noteq> snd (snd (fst v))}"
    by simp
  with m have "(((), True, False), ((), True, True)) \<in> rho1" by simp
  with c have "(((), True, False), ((), True, True)) \<in> winningRegion wr_two \<and>
        (((), True, False), ((), True, True)) \<in> transition12 wr_two \<and>
        swap_io (((), True, False), ((), True, True)) \<in> winningRegion wr_two"
    by blast
  moreover have "(((), True, False), ((), True, True)) \<in> guarantees wr_two ! 0"
    by (simp add: wr_two_def out_high_m_def)
  ultimately show ?thesis using jx_ok_wr_two e n by (simp add: enc_bit_def)
qed

section \<open>Rule 3 of the strategy\<close>

text \<open>
  Claim C3 says that a move of the Rule-3 component for \<open>(j, r, i)\<close> starts outside
  \<open>X[j][r][i-1]\<close>, leads into \<open>X[j][r][i-1]\<close> and advances the memory to \<open>(j + 1) mod n\<close>.
  In \<open>_calc_rho3\<close> the move leads into \<open>X[j][r][i]\<close> itself and the memory keeps its value.
  For \<open>game_two\<close> there is one assumption, so that \<open>i - 1\<close> never names an entry, and one
  recorded row; the component is the set of valuations in which the output bit is clear
  and the next memory bit equals the present one: from memory 0 the move to memory 0 is
  in it and the move to memory 1 is not.
\<close>

theorem rule3_counterexample:
  "map_option (map_sum id (\<lambda>w. calc_rho3 rst_id w 2 ONE)) (calcWinningRegion marduk_bit game_two)
     = Some (Inr (Inr {v. \<not> fst (snd (fst v)) \<and> snd (snd (snd v)) = snd (snd (fst v))})) \<and>
   (((), False, False), ((), False, False))
     \<in> {v :: (unit, bool, bool) valuation. \<not> fst (snd (fst v)) \<and> snd (snd (snd v)) = snd (snd (fst v))} \<and>
   (((), False, False), ((), False, True))
     \<notin> {v :: (unit, bool, bool) valuation. \<not> fst (snd (fst v)) \<and> snd (snd (snd v)) = snd (snd (fst v))}"
  by (simp add: calcWinningRegion_game_two calc_rho3_wr_two del: ONE_def)

text \<open>
  Claim C3, amended.  Let the memory be a counter modulo \<open>n\<close> with the encoding \<open>enc\<close>, let
  \<open>xArray[j]\<close> hold \<open>R j\<close> rows of \<open>m > 0\<close> entries \<open>X j r i\<close>, one for each assumption, and let
  the operator \<open>//\<close> agree with its first argument on the care set.  Then \<open>_calc_rho3\<close>
  returns, and a valuation of the care set (the reachable states) is in its result
  exactly if it is consistent with \<open>transition12\<close> and, for some \<open>j < n\<close>, \<open>r < R j\<close> and
  \<open>i < m\<close>: the present and the next memory are both \<open>enc j\<close>; the valuation lies in
  \<open>X j r i\<close> and in no entry recorded before it (no entry of an earlier row, no earlier
  entry of row \<open>r\<close>); \<open>assumptions[i]\<close> does not hold; and the move leads into \<open>X j r i\<close>.
\<close>

theorem rule3_moves:
  assumes "jx_ok w n enc" "x_shape (xArray w) n m R X" "m = length (assumptions w)" "0 < m"
    and "restrict_ok rst"
  shows "\<exists>rho3. calc_rho3 rst w n care = Inr rho3 \<and>
           (\<forall>v \<in> care. v \<in> rho3 \<longleftrightarrow>
              (\<exists>j < n. snd (snd (fst v)) = enc j \<and> snd (snd (snd v)) = enc j \<and>
                 (\<exists>r < R j. \<exists>i < m. v \<in> X j r i \<and>
                    (\<forall>r' < r. \<forall>i' < m. v \<notin> X j r' i') \<and> (\<forall>i' < i. v \<notin> X j r i') \<and>
                    v \<notin> assumptions w ! i \<and> swap_io v \<in> X j r i)) \<and>
              v \<in> transition12 w)"
proof (intro exI conjI ballI)
  show "calc_rho3 rst w n care =
           Inr ((\<Union>j \<in> {0..<n}. rule3 rst care (assumptions w) (X j) m (R j)
                                   \<inter> jx_cube (enc j) \<inter> jx_ncube (enc j))
                \<inter> transition12 w)"
    by (rule calc_rho3_sem[OF assms(1-4)])
next
  fix v assume v: "v \<in> care"
  show "v \<in> (\<Union>j \<in> {0..<n}. rule3 rst care (assumptions w) (X j) m (R j)
                                   \<inter> jx_cube (enc j) \<inter> jx_ncube (enc j))
                \<inter> transition12 w \<longleftrightarrow>
              (\<exists>j < n. snd (snd (fst v)) = enc j \<and> snd (snd (snd v)) = enc j \<and>
                 (\<exists>r < R j. \<exists>i < m. v \<in> X j r i \<and>
                    (\<forall>r' < r. \<forall>i' < m. v \<notin> X j r' i') \<and> (\<forall>i' < i. v \<notin> X j r i') \<and>
                    v \<notin> assumptions w ! i \<and> swap_io v \<in> X j r i)) \<and>
              v \<in> transition12 w"
    unfolding Int_iff rule3_cube_mem[OF assms(5) v] by (rule refl)
qed

theorem rule3_moves_witness:
  "jx_ok wr_two 2 enc_bit \<and> x_shape (xArray wr_two) 2 1 (\<lambda>j. 1) (\<lambda>j r i. ONE) \<and>
   length (assumptions wr_two) = 1 \<and> restrict_ok (rst_id :: (unit, bool, bool) bdd \<Rightarrow> _) \<and>
   calc_rho3 rst_id wr_two 2 ONE
     = Inr {v. \<not> fst (snd (fst v)) \<and> snd (snd (snd v)) = snd (snd (fst v))} \<and>
   enc_bit 0 = False \<and>
   (((), False, False), ((), False, False)) \<notin> assumptions wr_two ! 0 \<and>
   (((), False, False), ((), False, False)) \<in> transition12 wr_two"
proof -
  have m: "1 = length (assumptions wr_two)" "0 < (1::nat)" by (simp_all add: wr_two_def)
  have ok: "restrict_ok (rst_id :: (unit, bool, bool) bdd \<Rightarrow> _)"
    by (rule restrict_ok_rst_id)
  note e = calc_rho3_wr_two
  let ?v = "(((), False, False), ((), False, False)) :: (unit, bool, bool) valuation"
  let ?P = "\<lambda>v :: (unit, bool, bool) valuation.
              \<exists>j < 2. snd (snd (fst v)) = enc_bit j \<and> snd (snd (snd v)) = enc_bit j \<and>
                 (\<exists>r < (1::nat). \<exists>i < 1. v \<in> (ONE :: (unit, bool, bool) bdd) \<and>
                    (\<forall>r' < r. \<forall>i' < (1::nat). v \<notin> (ONE :: (unit, bool, bool) bdd)) \<and>
                    (\<forall>i' < i. v \<notin> (ONE :: (unit, bool, bool) bdd)) \<and>
                    v \<notin> assumptions wr_two ! i \<and> swap_io v \<in> (ONE :: (unit, bool, bool) bdd))"
  from rule3_moves[OF jx_ok_wr_two x_shape_wr_two m ok, of ONE] obtain rho3 where
    rc: "calc_rho3 rst_id wr_two 2 ONE = Inr rho3 \<and>
         (\<forall>v \<in> ONE. v \<in> rho3 \<longleftrightarrow> ?P v \<and> v \<in> transition12 wr_two)" ..
  from rc have r: "calc_rho3 rst_id wr_two 2 ONE = Inr rho3" by (rule conjunct1)
  from rc have c: "\<forall>v \<in> ONE. v \<in> rho3 \<longleftrightarrow> ?P v \<and> v \<in> transition12 wr_two"
    by (rule conjunct2)
  from c have i: "?v \<in> rho3 \<longleftrightarrow> ?P ?v \<and> ?v \<in> transition12 wr_two"
    by (rule bspec) simp
  from r e have "rho3 = {v. \<not> fst (snd (fst v)) \<and> snd (snd (snd v)) = snd (snd (fst v))}"
    by simp
  then have "?v \<in> rho3" by simp
  with i have "?P ?v \<and> ?v \<in> transition12 wr_two" by (rule iffD1)
  then have t: "?v \<in> transition12 wr_two" by (rule conjunct2)
  have a: "?v \<notin> assumptions wr_two ! 0"
    by (simp add: wr_two_def out_high_m_def)
  have z: "enc_bit 0 = False" by (simp add: enc_bit_def)
  show ?thesis
    by (intro conjI) (rule jx_ok_wr_two x_shape_wr_two m(1)[symmetric] ok e z a t)+
qed

section \<open>Moves of the strategy\<close>

text \<open>
  Claim C7 says that, for a realizable game, every reachable state of the winning region
  has an outgoing move in the relation that \<open>calcStrategy\<close> stores.  Each of the three
  components of that relation is a product with \<open>transition12\<close>, the product of the two
  players' transition relations.  In \<open>game_stuck\<close> the environment's relation is empty:
  the game is realizable, every state is winning and reachable, \<open>calcStrategy\<close>
  completes, and the strategy is empty.
\<close>

theorem strategy_counterexample:
  "(case calcWinningRegion marduk_unit game_stuck of
      Some (Inr w) \<Rightarrow>
        isRealizable w = Inr (True, w) \<and>
        reachableStates (init12 w) (transition12 w) ONE = Some ONE \<and>
        winningRegion w = ONE \<and>
        calcStrategy rst_id w = Some (Inr {})
    | _ \<Rightarrow> False)"
  by code_simp

text \<open>
  Claim C7, amended.  Let the BDDs of the specification mention only the variables they
  are meant to (\<open>well_formed\<close>), let there be an assumption and a guarantee, let the memory
  variables be as \<open>_moduloInc\<close> expects them (\<open>memory_ok\<close>, with \<open>enc j\<close> the memory valuation
  that encodes the counter value \<open>j\<close>; \<open>n\<close> is the number of guarantees), and let the
  operator \<open>//\<close> agree with its first argument on the care set.  Take the object that
  \<open>calcWinningRegion\<close> returns, as \<open>isRealizable\<close> leaves it when it answers \<open>True\<close>.  Then
  \<open>reachableStates\<close> returns.  If the winning region is empty, \<open>calcStrategy\<close> raises
  \<open>KeyError\<close> (\<open>yArray[0]\<close> has no entry 0).  Otherwise \<open>calcStrategy\<close> returns a strategy,
  and: for every state of the winning region with a memory value \<open>enc j\<close>, \<open>j < n\<close>, that
  is among the reachable states, and for every next input \<open>a\<close> that the environment's
  transition relation allows in that state, the strategy holds a move with the next
  input \<open>a\<close>, some next output and some next memory; and every move of the strategy
  from a reachable state satisfies \<open>transition12\<close>.
\<close>

theorem strategy_has_moves:
  fixes S :: "('i::finite, 'o::finite, 'm::finite) Specification"
  assumes wf: "well_formed S" and as: "spec_assumptions S \<noteq> []"
    and gs: "spec_guarantees S \<noteq> []"
    and cw: "calcWinningRegion marduk S = Some (Inr w)"
    and re: "isRealizable w = Inr (True, w')"
    and mem: "memory_ok marduk (length (spec_guarantees S)) enc"
    and rst: "restrict_ok rst"
  shows "\<exists>care.
           reachableStates (init12 w') (transition12 w') ONE = Some care \<and>
           (if winningRegion w' = ZERO then calcStrategy rst w' = Some (Inl KeyError)
            else (\<exists>strategy.
                    calcStrategy rst w' = Some (Inr strategy) \<and>
                    (\<forall>i o1 j i' o' m' a.
                        j < length (spec_guarantees S) \<and>
                        ((i, o1, enc j), (i', o', m')) \<in> care \<and>
                        ((i, o1, enc j), (i', o', m')) \<in> winningRegion w' \<and>
                        ((i, o1, enc j), (a, o', m')) \<in> transition1 w' \<longrightarrow>
                        (\<exists>b mx. ((i, o1, enc j), (a, b, mx)) \<in> strategy)) \<and>
                    (\<forall>u \<in> care. u \<in> strategy \<longrightarrow> u \<in> transition12 w')))"
proof -
  let ?n = "length (spec_guarantees S)"
  let ?m = "length (spec_assumptions S)"
  note sh = calcWinningRegion_shapes[OF cw]
  note fr = isRealizable_fields[OF re]
  have jx: "jx_ok w ?n enc" by (rule calcWinningRegion_jx_ok[OF cw gs mem])
  have W': "winningRegion w' = Wfix S" using sh(1) fr(1) by simp
  have g': "guarantees w' = spec_guarantees S" using sh(4) fr(4) by simp
  have a': "assumptions w' = spec_assumptions S" using sh(5) fr(5) by simp
  have jx': "jx_ok w' ?n enc" using jx fr(8-11) by (simp add: jx_ok_def)
  have xs': "x_shape (xArray w') ?n ?m (row_count S) (x_entry S)" using sh(2) fr(2) by simp
  have ys': "y_shape (yArray w') ?n (row_count S) (y_entry S)" using sh(3) fr(3) by simp
  have n': "?n = length (guarantees w')" "0 < ?n" using gs g' by auto
  have m': "?m = length (assumptions w')" "0 < ?m" using as a' by simp_all
  have spW: "state_pred (Wfix S)" by (rule Wfix_state_pred[OF wf])
  have "state_pred (get_init12 S)"
    unfolding get_init12_def by (intro state_pred_Int well_formedD(3,4)[OF wf])
  with spW have "state_pred (init12 w')"
    using fr(12) sh(8) fr(1) sh(1) by (auto intro: state_pred_Int)
  then have "ps_only (init12 w')" by (rule state_pred_ps_only)
  from reachableStates_returns[OF this, of "transition12 w'"] obtain care where
    care: "reachableStates (init12 w') (transition12 w') ONE = Some care" by blast
  let ?U3 = "(\<Union>j \<in> {0..<?n}. rule3 rst care (assumptions w') (x_entry S j) ?m (row_count S j)
                                   \<inter> jx_cube (enc j) \<inter> jx_ncube (enc j))"
  let ?U2 = "(\<Union>j \<in> {0..<?n}. rule2 rst care (y_entry S j) (row_count S j)
                                   \<inter> jx_cube (enc j) \<inter> jx_ncube (enc j))"
  let ?U1 = "(\<Union>j \<in> {0..<?n}. jx_cube (enc j) \<inter> guarantees w' ! j
                                  \<inter> jx_ncube (enc ((j + 1) mod ?n)))"
  let ?T = "transition12 w'"
  let ?W = "winningRegion w'"
  let ?U = "(?U3 \<inter> ?T) \<union> (?U2 \<inter> ?T) \<union> (?U1 \<inter> (?W \<inter> ?T \<inter> swapVariables_io ?W))"
  have branch: "if ?W = ZERO then calcStrategy rst w' = Some (Inl KeyError)
            else (\<exists>strategy.
                    calcStrategy rst w' = Some (Inr strategy) \<and>
                    (\<forall>i o1 j i' o' m' a.
                        j < ?n \<and>
                        ((i, o1, enc j), (i', o', m')) \<in> care \<and>
                        ((i, o1, enc j), (i', o', m')) \<in> ?W \<and>
                        ((i, o1, enc j), (a, o', m')) \<in> transition1 w' \<longrightarrow>
                        (\<exists>b mx. ((i, o1, enc j), (a, b, mx)) \<in> strategy)) \<and>
                    (\<forall>u \<in> care. u \<in> strategy \<longrightarrow> u \<in> ?T))"
  proof (cases "?W = ZERO")
    case True
    with W' have "Wfix S = {}" by simp
    then have R0: "row_count S 0 = 0" by (rule row_count_empty)
    have r3: "calc_rho3 rst w' ?n care = Inr (?U3 \<inter> ?T)"
      by (rule calc_rho3_sem[OF jx' xs' m'])
    have r2: "calc_rho2 rst w' ?n care = Inl KeyError"
      by (rule calc_rho2_empty[OF jx' ys' n'(2) R0])
    from n' have "guarantees w' \<noteq> []" by auto
    then have "calcStrategy rst w' = Some (Inl KeyError)"
      unfolding calcStrategy_def care n'(1)[symmetric] Let_def option.case r3 r2
      by simp
    then show ?thesis unfolding if_P[OF True] .
  next
    case False
    with W' obtain v0 where v0: "v0 \<in> Wfix S" by auto
    have R: "\<forall>j < ?n. 0 < row_count S j" using row_count_pos[OF _ v0] by blast
    have cs: "calcStrategy rst w' = Some (Inr (rst ?U care))"
      by (rule calcStrategy_sem[OF jx' n' xs' m' ys' R care])
    have moves: "\<forall>i o1 j i' o' m' a.
                        j < ?n \<and>
                        ((i, o1, enc j), (i', o', m')) \<in> care \<and>
                        ((i, o1, enc j), (i', o', m')) \<in> ?W \<and>
                        ((i, o1, enc j), (a, o', m')) \<in> transition1 w' \<longrightarrow>
                        (\<exists>b mx. ((i, o1, enc j), (a, b, mx)) \<in> rst ?U care)"
    proof (intro allI impI)
      fix i o1 j i' o' m' a
      assume h: "j < ?n \<and>
                        ((i, o1, enc j), (i', o', m')) \<in> care \<and>
                        ((i, o1, enc j), (i', o', m')) \<in> ?W \<and>
                        ((i, o1, enc j), (a, o', m')) \<in> transition1 w'"
      then have j: "j < ?n" and vc: "((i, o1, enc j), (i', o', m')) \<in> care"
        and v: "((i, o1, enc j), (i', o', m')) \<in> ?W"
        and e: "((i, o1, enc j), (a, o', m')) \<in> transition1 w'" by simp_all
      from strategy_move[OF wf as cw re jx rst j v e] obtain care2 strategy2 where
        c2: "reachableStates (init12 w') (transition12 w') ONE = Some care2" and
        s2: "calcStrategy rst w' = Some (Inr strategy2)" and
        m2: "((i, o1, enc j), (i', o', m')) \<in> care2 \<longrightarrow>
              (\<exists>b mx. ((i, o1, enc j), (a, b, mx)) \<in> strategy2)"
        by blast
      from c2 care have "care2 = care" by simp
      moreover from s2 cs have "strategy2 = rst ?U care" by simp
      ultimately show "\<exists>b mx. ((i, o1, enc j), (a, b, mx)) \<in> rst ?U care"
        using m2 vc by simp
    qed
    have sub: "\<forall>u \<in> care. u \<in> rst ?U care \<longrightarrow> u \<in> ?T"
    proof (intro ballI impI)
      fix u assume uc: "u \<in> care" and us: "u \<in> rst ?U care"
      from restrict_ok_mem[OF rst uc, of ?U] us have "u \<in> ?U" by (rule iffD1)
      then show "u \<in> ?T" by (rule union_within)
    qed
    have "\<exists>strategy.
                    calcStrategy rst w' = Some (Inr strategy) \<and>
                    (\<forall>i o1 j i' o' m' a.
                        j < ?n \<and>
                        ((i, o1, enc j), (i', o', m')) \<in> care \<and>
                        ((i, o1, enc j), (i', o', m')) \<in> ?W \<and>
                        ((i, o1, enc j), (a, o', m')) \<in> transition1 w' \<longrightarrow>
                        (\<exists>b mx. ((i, o1, enc j), (a, b, mx)) \<in> strategy)) \<and>
                    (\<forall>u \<in> care. u \<in> strategy \<longrightarrow> u \<in> ?T)"
      by (intro exI[of _ "rst ?U care"] conjI cs moves sub)
    then show ?thesis unfolding if_not_P[OF False] .
  qed
  from care branch show ?thesis by (intro exI[of _ care] conjI)
qed

theorem strategy_has_moves_witness:
  "well_formed game_two \<and> spec_assumptions game_two \<noteq> [] \<and> spec_guarantees game_two \<noteq> [] \<and>
   calcWinningRegion marduk_bit game_two = Some (Inr wr_two) \<and>
   isRealizable wr_two = Inr (True, wr_two) \<and>
   memory_ok marduk_bit (length (spec_guarantees game_two)) enc_bit \<and>
   restrict_ok (rst_id :: (unit, bool, bool) bdd \<Rightarrow> _) \<and>
   reachableStates (init12 wr_two) (transition12 wr_two) ONE = Some ONE \<and>
   winningRegion wr_two \<noteq> ZERO \<and>
   (((), True, enc_bit 0), ((), True, True)) \<in> winningRegion wr_two \<and>
   (((), True, enc_bit 0), ((), True, True)) \<in> transition1 wr_two \<and>
   (\<exists>strategy. calcStrategy rst_id wr_two = Some (Inr strategy) \<and>
      (\<exists>b mx. (((), True, enc_bit 0), ((), b, mx)) \<in> strategy)) \<and>
   well_formed game_lost \<and> spec_assumptions game_lost \<noteq> [] \<and> spec_guarantees game_lost \<noteq> [] \<and>
   calcWinningRegion marduk_unit game_lost = Some (Inr wr_lost) \<and>
   isRealizable wr_lost = Inr (True, wr_lost) \<and>
   memory_ok marduk_unit (length (spec_guarantees game_lost)) (\<lambda>j. ()) \<and>
   restrict_ok (rst_id :: (unit, bool, unit) bdd \<Rightarrow> _) \<and>
   winningRegion wr_lost = ZERO \<and>
   calcStrategy rst_id wr_lost = Some (Inl KeyError)"
proof -
  have as: "spec_assumptions game_two \<noteq> []" by (simp add: game_two_def)
  have gs: "spec_guarantees game_two \<noteq> []" by (simp add: game_two_def)
  have l: "length (spec_guarantees game_two) = 2" by (simp add: game_two_def)
  note jx = memory_ok_marduk_bit
  have ok: "restrict_ok (rst_id :: (unit, bool, bool) bdd \<Rightarrow> _)"
    by (rule restrict_ok_rst_id)
  have nz: "winningRegion wr_two \<noteq> ZERO" by (auto simp: wr_two_def)
  have v: "(((), True, enc_bit 0), ((), True, True)) \<in> winningRegion wr_two"
    by (simp add: wr_two_def)
  have e: "(((), True, enc_bit 0), ((), True, True)) \<in> transition1 wr_two"
    by (simp add: wr_two_def)
  let ?M = "\<lambda>(care :: (unit, bool, bool) bdd) strategy.
      \<forall>i o1 j i' o' m' a.
          j < length (spec_guarantees game_two) \<and>
          ((i, o1, enc_bit j), (i', o', m')) \<in> care \<and>
          ((i, o1, enc_bit j), (i', o', m')) \<in> winningRegion wr_two \<and>
          ((i, o1, enc_bit j), (a, o', m')) \<in> transition1 wr_two \<longrightarrow>
          (\<exists>b mx. ((i, o1, enc_bit j), (a, b, mx)) \<in> strategy)"
  let ?B = "\<lambda>care :: (unit, bool, bool) bdd. \<exists>strategy.
      calcStrategy rst_id wr_two = Some (Inr strategy) \<and> ?M care strategy \<and>
      (\<forall>u \<in> care. u \<in> strategy \<longrightarrow> u \<in> transition12 wr_two)"
  from strategy_has_moves[OF well_formed_game_two as gs calcWinningRegion_game_two
      isRealizable_wr_two jx ok]
  obtain care where
    cb: "reachableStates (init12 wr_two) (transition12 wr_two) ONE = Some care \<and>
         (if winningRegion wr_two = ZERO then calcStrategy rst_id wr_two = Some (Inl KeyError)
          else ?B care)" ..
  from cb have c: "reachableStates (init12 wr_two) (transition12 wr_two) ONE = Some care"
    by (rule conjunct1)
  from cb have "if winningRegion wr_two = ZERO
      then calcStrategy rst_id wr_two = Some (Inl KeyError) else ?B care"
    by (rule conjunct2)
  then have "?B care" unfolding if_not_P[OF nz] .
  then obtain strategy where
    s: "calcStrategy rst_id wr_two = Some (Inr strategy)" and m: "?M care strategy"
    by blast
  from c reachableStates_wr_two have "care = ONE" by simp
  then have vc: "(((), True, enc_bit 0), ((), True, True)) \<in> care" by simp
  have j: "0 < length (spec_guarantees game_two)" unfolding l by simp
  from m j vc v e have "\<exists>b mx. (((), True, enc_bit 0), ((), b, mx)) \<in> strategy" by blast
  with s have two: "\<exists>strategy. calcStrategy rst_id wr_two = Some (Inr strategy) \<and>
      (\<exists>b mx. (((), True, enc_bit 0), ((), b, mx)) \<in> strategy)" by blast
  have asL: "spec_assumptions game_lost \<noteq> []" by (simp add: game_lost_def)
  have gsL: "spec_guarantees game_lost \<noteq> []" by (simp add: game_lost_def)
  have lL: "length (spec_guarantees game_lost) = 1" by (simp add: game_lost_def)
  note jxL = memory_ok_marduk_unit
  have okL: "restrict_ok (rst_id :: (unit, bool, unit) bdd \<Rightarrow> _)"
    by (rule restrict_ok_rst_id)
  have z: "winningRegion wr_lost = ZERO" by (simp add: wr_lost_def)
  from strategy_has_moves[OF well_formed_game_lost asL gsL calcWinningRegion_game_lost
      isRealizable_wr_lost jxL okL]
  have lost: "calcStrategy rst_id wr_lost = Some (Inl KeyError)"
    unfolding if_P[OF z] by (elim exE conjE)
  show ?thesis
    by (intro conjI) (rule well_formed_game_two as gs calcWinningRegion_game_two
        isRealizable_wr_two jx ok reachableStates_wr_two nz v e two
        well_formed_game_lost asL gsL calcWinningRegion_game_lost isRealizable_wr_lost
        jxL okL z lost)+
qed

end
